theory Spec2Isabelle
  imports Main "HOL-Library.Word" "HOL-Library.Log_Nat"
begin

section \<open>The academic service: student list and semester grade-point average\<close>

text \<open>
  The service (\<^verbatim>\<open>acad-service/main.py\<close>) has two read endpoints over a PostgreSQL
  database: \<^verbatim>\<open>get_mahasiswas\<close> lists the student table and \<^verbatim>\<open>get_ips\<close> computes the
  semester grade-point average (IPS) of one student from the joined enrollment rows.
  Both are modelled as functions of what the database returned: the rows fetched by the
  cursor, or the message of the exception the driver raised. An \<^verbatim>\<open>HTTPException\<close> is the
  left summand of the result.
\<close>

subsection \<open>Python strings: \<^verbatim>\<open>str.strip\<close> and \<^verbatim>\<open>str.upper\<close>\<close>

text \<open>
  A text that comes from the database is a list of 8-bit characters, read as the code
  points 0 to 255 (Latin-1). A string that Python computes is a list of code points: the
  upper case of a Latin-1 character can lie outside Latin-1.
\<close>

type_synonym pystr = "nat list"

definition py_str :: "string \<Rightarrow> pystr" where
  "py_str s = map of_char s"

text \<open>
  \<^verbatim>\<open>strip()\<close> removes the leading and the trailing whitespace. The code points below 256
  that Python counts as whitespace are 9 to 13, 28 to 32, 133 and 160.
\<close>

definition space_code :: "nat \<Rightarrow> bool" where
  "space_code n = ((9 \<le> n \<and> n \<le> 13) \<or> (28 \<le> n \<and> n \<le> 32) \<or> n = 133 \<or> n = 160)"

definition isspace :: "char \<Rightarrow> bool" where
  "isspace c = space_code (of_char c)"

definition str_strip :: "string \<Rightarrow> string" where
  "str_strip s = rev (dropWhile isspace (rev (dropWhile isspace s)))"

text \<open>
  \<^verbatim>\<open>upper()\<close> replaces every character by its upper case, which may be more than one
  character. Below 256 the letters \<^verbatim>\<open>a\<close> to \<^verbatim>\<open>z\<close> and the accented letters 224 to 254
  (but not the division sign 247) move down by 32; the micro sign 181 becomes the Greek
  capital mu 924, the sharp s 223 becomes \<^verbatim>\<open>SS\<close>, and the y with diaeresis 255 becomes
  376; every other character stays.
\<close>

definition upper_code :: "nat \<Rightarrow> pystr" where
  "upper_code n =
     (if (97 \<le> n \<and> n \<le> 122) \<or> (224 \<le> n \<and> n \<le> 254 \<and> n \<noteq> 247) then [n - 32]
      else if n = 181 then [924]
      else if n = 223 then [83, 83]
      else if n = 255 then [376]
      else [n])"

definition upper_full :: "char \<Rightarrow> pystr" where
  "upper_full c = upper_code (of_char c)"

definition str_upper :: "string \<Rightarrow> pystr" where
  "str_upper s = concat (map upper_full s)"

text \<open>The grade token of a row as the loop reads it: \<^verbatim>\<open>str(row[3]).strip().upper()\<close>.\<close>

definition normalize_nilai :: "string \<Rightarrow> pystr" where
  "normalize_nilai s = str_upper (str_strip s)"

subsection \<open>Python floats\<close>

text \<open>
  A Python float is an IEEE 754 binary64 number. A finite float is modelled by the
  rational number it denotes, and every float operation is the exact operation followed
  by rounding to the nearest binary64 value, ties to the even significand: the
  significand has 53 bits, and below \<open>2\<^sup>-\<^sup>1\<^sup>0\<^sup>2\<^sup>2\<close> the spacing stays at \<open>2\<^sup>-\<^sup>1\<^sup>0\<^sup>7\<^sup>4\<close>
  (subnormal numbers). The exponent range is not bounded above in the model: the credit
  hours are 64-bit database integers, so a value beyond the largest binary64 number
  (about \<open>1.8 * 10\<^sup>3\<^sup>0\<^sup>8\<close>) would need more than \<open>2\<^sup>9\<^sup>5\<^sup>0\<close> rows. The two zeros of binary64
  are one value, as they are for Python's \<^verbatim>\<open>==\<close>.
\<close>

type_synonym pyfloat = rat

definition round_half_even :: "rat \<Rightarrow> int" where
  "round_half_even x =
     (let f = \<lfloor>x\<rfloor>; d = x - of_int f
      in if d < 1 / 2 then f else if 1 / 2 < d then f + 1 else if even f then f else f + 1)"

definition pow2 :: "int \<Rightarrow> rat" where
  "pow2 e = (if 0 \<le> e then 2 ^ nat e else 1 / 2 ^ nat (- e))"

text \<open>The binary exponent of a positive rational: \<open>2\<^sup>e \<le> x < 2\<^sup>e\<^sup>+\<^sup>1\<close>.\<close>

definition ilog2 :: "rat \<Rightarrow> int" where
  "ilog2 x =
     (if 1 \<le> x then bitlen \<lfloor>x\<rfloor> - 1
      else let j = bitlen \<lfloor>1 / x\<rfloor> - 1 in if x = pow2 (- j) then - j else - j - 1)"

definition to_binary64 :: "rat \<Rightarrow> pyfloat" where
  "to_binary64 x =
     (if x = 0 then 0
      else let e = max (ilog2 \<bar>x\<bar>) (- 1022); u = pow2 (e - 52)
           in of_int (round_half_even (x / u)) * u)"

datatype py_exception = ZeroDivisionError

definition str_of_exception :: "py_exception \<Rightarrow> pystr" where
  "str_of_exception e = (case e of ZeroDivisionError \<Rightarrow> py_str ''float division by zero'')"

definition float_of_int :: "int \<Rightarrow> pyfloat" where
  "float_of_int n = to_binary64 (of_int n)"

definition float_add :: "pyfloat \<Rightarrow> pyfloat \<Rightarrow> pyfloat" where
  "float_add a b = to_binary64 (a + b)"

definition float_mul :: "pyfloat \<Rightarrow> pyfloat \<Rightarrow> pyfloat" where
  "float_mul a b = to_binary64 (a * b)"

definition float_truediv :: "pyfloat \<Rightarrow> pyfloat \<Rightarrow> py_exception + pyfloat" where
  "float_truediv a b = (if b = 0 then Inl ZeroDivisionError else Inr (to_binary64 (a / b)))"

text \<open>
  \<^verbatim>\<open>round(x, 2)\<close>: Python rounds the exact value of the float to the nearest multiple of
  \<open>1/100\<close>, an exact tie going to the even multiple, and returns the float nearest to that
  decimal.
\<close>

definition round2 :: "pyfloat \<Rightarrow> pyfloat" where
  "round2 x = to_binary64 (of_int (round_half_even (x * 100)) / 100)"

subsection \<open>The student list\<close>

text \<open>
  \<^verbatim>\<open>SELECT * FROM mahasiswa\<close> yields one tuple per student, whose columns are those of
  the class \<^verbatim>\<open>Mahasiswa\<close>: nim, nama, jurusan (text) and angkatan (integer). Each tuple
  becomes a dictionary, modelled by the list of its items in insertion order.
\<close>

datatype json_value = JStr string | JInt int

type_synonym mahasiswa_row = "string \<times> string \<times> string \<times> int"

datatype http_exception = HTTPException (status_code: nat) (detail: pystr)

definition mahasiswa_dict :: "mahasiswa_row \<Rightarrow> (string \<times> json_value) list" where
  "mahasiswa_dict row =
     (case row of (r0, r1, r2, r3) \<Rightarrow>
        [(''nim'', JStr r0), (''nama'', JStr r1), (''jurusan'', JStr r2), (''angkatan'', JInt r3)])"

definition get_mahasiswas ::
    "string + mahasiswa_row list \<Rightarrow> http_exception + (string \<times> json_value) list list" where
  "get_mahasiswas fetched =
     (case fetched of
        Inl e \<Rightarrow> Inl (HTTPException 500 (py_str e))
      | Inr rows \<Rightarrow> Inr (map mahasiswa_dict rows))"

subsection \<open>The grade-point average\<close>

text \<open>
  A row of the join is \<^verbatim>\<open>(m.nim, m.nama, m.jurusan, krs.nilai, mk.sks)\<close>: four texts and
  the credit hours of the course, an SQL integer (at most 64 bits wide in PostgreSQL) that
  \<^verbatim>\<open>int(row[4])\<close> reads as a signed number.
\<close>

type_synonym krs_row = "string \<times> string \<times> string \<times> string \<times> 64 word"

definition bobot_nilai :: "(pystr \<times> pyfloat) list" where
  "bobot_nilai =
     [(py_str ''A'', 4), (py_str ''A-'', 15 / 4), (py_str ''B+'', 7 / 2), (py_str ''B'', 3),
      (py_str ''B-'', 11 / 4), (py_str ''C+'', 5 / 2), (py_str ''C'', 2), (py_str ''D'', 1),
      (py_str ''E'', 0)]"

text \<open>
  \<^verbatim>\<open>repr\<close> of a list of strings that hold no quote and no escape, as the keys do; 39 is
  the code point of the single quote.
\<close>

fun join_comma :: "pystr list \<Rightarrow> pystr" where
  "join_comma [] = []"
| "join_comma [s] = s"
| "join_comma (s # t # ss) = s @ py_str '', '' @ join_comma (t # ss)"

definition repr_str :: "pystr \<Rightarrow> pystr" where
  "repr_str s = [39] @ s @ [39]"

definition repr_list :: "pystr list \<Rightarrow> pystr" where
  "repr_list ss = py_str ''['' @ join_comma (map repr_str ss) @ py_str '']''"

definition not_found_detail :: "string \<Rightarrow> pystr" where
  "not_found_detail nim = py_str (''Data KRS untuk NIM '' @ nim @ '' tidak ditemukan'')"

definition invalid_grade_detail :: "pystr \<Rightarrow> pystr" where
  "invalid_grade_detail nilai_huruf =
     py_str ''Nilai '' @ [39] @ nilai_huruf @ [39]
       @ py_str '' tidak dikenali. Harus salah satu: ''
       @ repr_list (map fst bobot_nilai)"

definition zero_sks_detail :: pystr where
  "zero_sks_detail = py_str ''Total SKS = 0, IPS tidak bisa dihitung''"

record detail_item =
  nilai :: pystr
  sks :: int
  bobot :: pyfloat
  bobot_x_sks :: pyfloat

record ips_result =
  nim :: string
  nama :: string
  jurusan :: string
  total_sks :: int
  total_bobot :: pyfloat
  ips :: pyfloat
  detail_perhitungan :: "detail_item list"

text \<open>
  The \<^verbatim>\<open>for\<close> loop over the rows, with the three variables it updates. The
  \<^verbatim>\<open>raise\<close> in its body leaves the loop at once.
\<close>

fun ips_loop ::
    "krs_row list \<Rightarrow> int \<Rightarrow> pyfloat \<Rightarrow> detail_item list \<Rightarrow>
       http_exception + (int \<times> pyfloat \<times> detail_item list)" where
  "ips_loop [] tot_sks tot_bobot det = Inr (tot_sks, tot_bobot, det)"
| "ips_loop ((r0, r1, r2, r3, r4) # rows) tot_sks tot_bobot det =
     (let nilai_huruf = normalize_nilai r3;
          sks_i = sint r4
      in case map_of bobot_nilai nilai_huruf of
           None \<Rightarrow> Inl (HTTPException 400 (invalid_grade_detail nilai_huruf))
         | Some b \<Rightarrow>
             ips_loop rows (tot_sks + sks_i)
               (float_add tot_bobot (float_mul b (float_of_int sks_i)))
               (det @ [\<lparr>nilai = nilai_huruf, sks = sks_i, bobot = b,
                        bobot_x_sks = round2 (float_mul b (float_of_int sks_i))\<rparr>]))"

definition get_ips :: "string \<Rightarrow> string + krs_row list \<Rightarrow> http_exception + ips_result" where
  "get_ips nim_q fetched =
     (case fetched of
        Inl e \<Rightarrow> Inl (HTTPException 500 (py_str e))
      | Inr rows \<Rightarrow>
          (case rows of
             [] \<Rightarrow> Inl (HTTPException 404 (not_found_detail nim_q))
           | (nim_mhs, nama_mhs, jurusan_mhs, _) # _ \<Rightarrow>
               (case ips_loop rows 0 0 [] of
                  Inl exc \<Rightarrow> Inl exc
                | Inr (tot_sks, tot_bobot, det) \<Rightarrow>
                    if tot_sks = 0 then Inl (HTTPException 400 zero_sks_detail)
                    else (case float_truediv tot_bobot (float_of_int tot_sks) of
                            Inl e \<Rightarrow> Inl (HTTPException 500 (str_of_exception e))
                          | Inr ips_v \<Rightarrow>
                              Inr \<lparr>nim = nim_mhs, nama = nama_mhs, jurusan = jurusan_mhs,
                                   total_sks = tot_sks, total_bobot = round2 tot_bobot,
                                   ips = round2 ips_v, detail_perhitungan = det\<rparr>))))"

subsection \<open>Notions used to state the properties\<close>

definition row_nilai :: "krs_row \<Rightarrow> string" where
  "row_nilai row = (case row of (r0, r1, r2, r3, r4) \<Rightarrow> r3)"

definition row_sks :: "krs_row \<Rightarrow> int" where
  "row_sks row = (case row of (r0, r1, r2, r3, r4) \<Rightarrow> sint r4)"

text \<open>A row is valid when its normalized grade is a key of the weight table.\<close>

definition valid_row :: "krs_row \<Rightarrow> bool" where
  "valid_row row = (normalize_nilai (row_nilai row) \<in> set (map fst bobot_nilai))"

definition row_bobot :: "krs_row \<Rightarrow> pyfloat" where
  "row_bobot row =
     (case map_of bobot_nilai (normalize_nilai (row_nilai row)) of Some b \<Rightarrow> b | None \<Rightarrow> 0)"

definition detail_of :: "krs_row \<Rightarrow> detail_item" where
  "detail_of row =
     \<lparr>nilai = normalize_nilai (row_nilai row), sks = row_sks row, bobot = row_bobot row,
      bobot_x_sks = round2 (float_mul (row_bobot row) (float_of_int (row_sks row)))\<rparr>"

text \<open>The running total of quality points, in floats and with no rounding to decimals.\<close>

definition acc_bobot :: "krs_row list \<Rightarrow> pyfloat" where
  "acc_bobot rows =
     foldl (\<lambda>acc row. float_add acc (float_mul (row_bobot row) (float_of_int (row_sks row))))
       0 rows"

text \<open>The sums of the specification, in exact arithmetic.\<close>

definition sum_sks :: "krs_row list \<Rightarrow> int" where
  "sum_sks rows = sum_list (map row_sks rows)"

definition sum_abs_sks :: "krs_row list \<Rightarrow> int" where
  "sum_abs_sks rows = sum_list (map (\<lambda>row. \<bar>row_sks row\<bar>) rows)"

definition sum_bobot :: "krs_row list \<Rightarrow> rat" where
  "sum_bobot rows = sum_list (map (\<lambda>row. row_bobot row * of_int (row_sks row)) rows)"

definition weighted_average :: "krs_row list \<Rightarrow> rat" where
  "weighted_average rows = sum_bobot rows / of_int (sum_sks rows)"

text \<open>
  Rounding an exact number to two decimal places, with a tie going up (the school rule)
  or to the even neighbour (the rule of \<^verbatim>\<open>round\<close>).
\<close>

definition decimal2_half_up :: "rat \<Rightarrow> rat" where
  "decimal2_half_up x = of_int \<lfloor>x * 100 + 1 / 2\<rfloor> / 100"

definition decimal2_half_even :: "rat \<Rightarrow> rat" where
  "decimal2_half_even x = of_int (round_half_even (x * 100)) / 100"

text \<open>An exact number that lies midway between two neighbouring two-decimal numbers.\<close>

definition is_tie2 :: "rat \<Rightarrow> bool" where
  "is_tie2 x = (x * 100 - of_int \<lfloor>x * 100\<rfloor> = 1 / 2)"

text \<open>
  A row whose stored grade token is the normalized token of another row, all else equal.
\<close>

definition normalized_form :: "krs_row \<Rightarrow> krs_row \<Rightarrow> bool" where
  "normalized_form row row' =
     (case (row, row') of
        ((r0, r1, r2, r3, r4), (s0, s1, s2, s3, s4)) \<Rightarrow>
          s0 = r0 \<and> s1 = r1 \<and> s2 = r2 \<and> py_str s3 = normalize_nilai r3 \<and> s4 = r4)"

section \<open>Auxiliary facts\<close>

subsection \<open>Facts about the string methods\<close>

lemma upper_code_space: "space_code n \<Longrightarrow> upper_code n = [n]"
  by (auto simp add: space_code_def upper_code_def)

lemma upper_code_not_Nil: "upper_code n \<noteq> []"
  by (simp add: upper_code_def)

lemma upper_code_image:
  assumes "n < 256" and "d \<in> set (upper_code n)" and "d < 256"
  shows "upper_code d = [d] \<and> (space_code d \<longrightarrow> space_code n)"
proof -
  consider
      (shift) "d = n - 32" and "(97 \<le> n \<and> n \<le> 122) \<or> (224 \<le> n \<and> n \<le> 254 \<and> n \<noteq> 247)"
    | (sharp) "d = 83" and "n = 223"
    | (same) "d = n" and "\<not> ((97 \<le> n \<and> n \<le> 122) \<or> (224 \<le> n \<and> n \<le> 254 \<and> n \<noteq> 247))"
        and "n \<noteq> 181" and "n \<noteq> 223" and "n \<noteq> 255"
    using assms(2,3) by (auto simp add: upper_code_def split: if_splits)
  then show ?thesis
  proof cases
    case shift
    then have "(65 \<le> d \<and> d \<le> 90) \<or> (192 \<le> d \<and> d \<le> 222 \<and> d \<noteq> 215)" by arith
    then show ?thesis by (auto simp add: upper_code_def space_code_def)
  next
    case sharp
    then show ?thesis by (simp add: upper_code_def space_code_def)
  next
    case same
    then show ?thesis by (auto simp add: upper_code_def)
  qed
qed

lemma upper_full_space: "isspace c \<Longrightarrow> upper_full c = [of_char c]"
  by (simp add: isspace_def upper_full_def upper_code_space)

lemma upper_full_not_Nil: "upper_full c \<noteq> []"
  by (simp add: upper_full_def upper_code_not_Nil)

lemma of_char_char_of_small: "d < 256 \<Longrightarrow> (of_char (char_of d) :: nat) = d"
  by simp

lemma upper_full_fixed:
  assumes "d \<in> set (upper_full c)" and "d < 256"
  shows "upper_full (char_of d) = [d]"
proof -
  have lt: "(of_char c :: nat) < 256" by (rule nat_of_char_less_256)
  have mem: "d \<in> set (upper_code (of_char c))" using assms(1) by (simp only: upper_full_def)
  have "upper_code d = [d]" using upper_code_image [OF lt mem assms(2)] ..
  then show ?thesis using assms(2) by (simp add: upper_full_def)
qed

lemma upper_full_no_space:
  assumes "\<not> isspace c" and "d \<in> set (upper_full c)" and "d < 256"
  shows "\<not> isspace (char_of d)"
proof -
  have lt: "(of_char c :: nat) < 256" by (rule nat_of_char_less_256)
  have mem: "d \<in> set (upper_code (of_char c))" using assms(2) by (simp only: upper_full_def)
  have "space_code d \<longrightarrow> space_code (of_char c)"
    using upper_code_image [OF lt mem assms(3)] ..
  then show ?thesis using assms(1,3) by (simp add: isspace_def)
qed

lemma rstrip_prefix: "\<exists>w. t = rev (dropWhile P (rev t)) @ w"
proof -
  have "rev (takeWhile P (rev t) @ dropWhile P (rev t)) = rev (rev t)"
    by (simp only: takeWhile_dropWhile_id)
  then have "t = rev (dropWhile P (rev t)) @ rev (takeWhile P (rev t))"
    by (simp only: rev_append rev_rev_ident)
  then show ?thesis ..
qed

lemma str_strip_ends:
  "str_strip t = [] \<or> (\<not> isspace (hd (str_strip t)) \<and> \<not> isspace (last (str_strip t)))"
proof (cases "str_strip t = []")
  case True
  then show ?thesis ..
next
  case False
  define u where "u = dropWhile isspace t"
  define v where "v = dropWhile isspace (rev u)"
  have s: "str_strip t = rev v" by (simp add: str_strip_def u_def v_def)
  have v: "v \<noteq> []" using False s by simp
  then have "\<not> isspace (hd v)" unfolding v_def by (rule hd_dropWhile)
  then have l: "\<not> isspace (last (str_strip t))" using v by (simp add: s last_rev)
  obtain w where w: "u = rev v @ w" unfolding v_def using rstrip_prefix by blast
  then have "u \<noteq> []" using v by simp
  then have "\<not> isspace (hd u)" unfolding u_def by (rule hd_dropWhile)
  moreover have "hd u = hd (rev v)" using w v by simp
  ultimately have "\<not> isspace (hd (str_strip t))" by (simp add: s)
  then show ?thesis using l by simp
qed

lemma dropWhile_hd_id: "xs \<noteq> [] \<Longrightarrow> \<not> P (hd xs) \<Longrightarrow> dropWhile P xs = xs"
  by (cases xs) simp_all

lemma str_strip_fixed:
  assumes "s = [] \<or> (\<not> isspace (hd s) \<and> \<not> isspace (last s))"
  shows "str_strip s = s"
proof (cases "s = []")
  case True
  then show ?thesis by (simp add: str_strip_def)
next
  case False
  then have h: "\<not> isspace (hd s)" and l: "\<not> isspace (last s)" using assms by simp_all
  have a: "dropWhile isspace s = s"
    using False h by (rule dropWhile_hd_id)
  have "rev s \<noteq> []" and "\<not> isspace (hd (rev s))" using False l by (simp_all add: hd_rev)
  then have b: "dropWhile isspace (rev s) = rev s"
    by (rule dropWhile_hd_id)
  show ?thesis by (simp add: str_strip_def a b)
qed

lemma str_strip_idem: "str_strip (str_strip s) = str_strip s"
  using str_strip_ends [of s] by (rule str_strip_fixed)

lemma hd_concat_upper:
  "s \<noteq> [] \<Longrightarrow> hd (concat (map upper_full s)) \<in> set (upper_full (hd s))"
  using upper_full_not_Nil [of "hd s"] by (cases s) simp_all

lemma last_concat_upper:
  "s \<noteq> [] \<Longrightarrow> last (concat (map upper_full s)) \<in> set (upper_full (last s))"
proof (induction s)
  case Nil
  then show ?case by simp
next
  case (Cons c s)
  show ?case
  proof (cases "s = []")
    case True
    then show ?thesis using upper_full_not_Nil [of c] by simp
  next
    case False
    then have "concat (map upper_full s) \<noteq> []"
      using upper_full_not_Nil [of "hd s"] by (cases s) simp_all
    then show ?thesis using Cons.IH [OF False] False by simp
  qed
qed

lemma concat_map_single:
  "(\<And>d. d \<in> set xs \<Longrightarrow> f d = [g d]) \<Longrightarrow> concat (map f xs) = map g xs"
  by (induction xs) simp_all

lemma normalize_nilai_fixed:
  assumes "py_str t' = normalize_nilai t"
  shows "normalize_nilai t' = normalize_nilai t"
proof -
  define s where "s = str_strip t"
  have eq: "map of_char t' = concat (map upper_full s)"
    using assms by (simp add: py_str_def normalize_nilai_def str_upper_def s_def)
  have small: "\<And>d. d \<in> set t' \<Longrightarrow> (of_char d :: nat) \<in> set (concat (map upper_full s))"
    using eq by (metis image_eqI set_map)
  have up: "concat (map upper_full t') = map of_char t'"
  proof -
    have "upper_full d = [of_char d]" if mem: "d \<in> set t'" for d
    proof -
      obtain c where "(of_char d :: nat) \<in> set (upper_full c)"
        using small [OF mem] by auto
      then have "upper_full (char_of (of_char d :: nat)) = [of_char d]"
        by (rule upper_full_fixed) simp
      then show ?thesis by simp
    qed
    then show ?thesis by (rule concat_map_single)
  qed
  have ends: "t' = [] \<or> (\<not> isspace (hd t') \<and> \<not> isspace (last t'))"
  proof (cases "t' = []")
    case True
    then show ?thesis ..
  next
    case False
    then have sn: "s \<noteq> []" using eq by auto
    then have se: "\<not> isspace (hd s)" "\<not> isspace (last s)"
      using str_strip_ends [of t] by (simp_all add: s_def)
    have "(of_char (hd t') :: nat) = hd (concat (map upper_full s))"
      using False eq by (simp add: hd_map flip: eq)
    then have m1: "(of_char (hd t') :: nat) \<in> set (upper_full (hd s))"
      using hd_concat_upper [OF sn] by simp
    have "\<not> isspace (char_of (of_char (hd t') :: nat))"
      by (rule upper_full_no_space [OF se(1) m1 nat_of_char_less_256])
    then have h: "\<not> isspace (hd t')" by simp
    have "(of_char (last t') :: nat) = last (concat (map upper_full s))"
      using False eq by (simp add: last_map flip: eq)
    then have m2: "(of_char (last t') :: nat) \<in> set (upper_full (last s))"
      using last_concat_upper [OF sn] by simp
    have "\<not> isspace (char_of (of_char (last t') :: nat))"
      by (rule upper_full_no_space [OF se(2) m2 nat_of_char_less_256])
    then have "\<not> isspace (last t')" by simp
    then show ?thesis using h by simp
  qed
  have "normalize_nilai t' = concat (map upper_full t')"
    using str_strip_fixed [OF ends] by (simp add: normalize_nilai_def str_upper_def)
  then show ?thesis using up assms by (simp add: py_str_def)
qed

lemma str_strip_pad:
  assumes w1: "list_all isspace w1" and w2: "list_all isspace w2"
  shows "str_strip (w1 @ t @ w2) = str_strip t"
proof -
  have a: "dropWhile isspace (w1 @ t @ w2) = dropWhile isspace (t @ w2)"
    using w1 by (simp add: list_all_iff dropWhile_append2)
  have r2: "\<And>x. x \<in> set (rev w2) \<Longrightarrow> isspace x"
    using w2 by (simp add: list_all_iff)
  show ?thesis
  proof (cases "\<forall>x\<in>set t. isspace x")
    case True
    then have "\<forall>x\<in>set (t @ w2). isspace x"
      using w2 by (auto simp add: list_all_iff)
    then have e1: "dropWhile isspace (t @ w2) = []"
      by (simp only: dropWhile_eq_Nil_conv)
    have e2: "dropWhile isspace t = []"
      using True by (simp only: dropWhile_eq_Nil_conv)
    show ?thesis unfolding str_strip_def a e1 e2 by simp
  next
    case False
    then obtain x where "x \<in> set t" "\<not> isspace x" by blast
    then have e3: "dropWhile isspace (t @ w2) = dropWhile isspace t @ w2"
      by (rule dropWhile_append1)
    have e4: "dropWhile isspace (rev w2 @ rev (dropWhile isspace t))
        = dropWhile isspace (rev (dropWhile isspace t))"
      by (rule dropWhile_append2) (rule r2)
    show ?thesis unfolding str_strip_def a e3 rev_append e4 ..
  qed
qed

lemma normalize_nilai_pad:
  "list_all isspace w1 \<Longrightarrow> list_all isspace w2 \<Longrightarrow>
     normalize_nilai (w1 @ t @ w2) = normalize_nilai t"
  by (simp add: normalize_nilai_def str_strip_pad)

lemma upper_full_same_space:
  assumes "upper_full c = upper_full d"
  shows "isspace c = isspace d"
proof -
  have imp: "isspace a \<Longrightarrow> upper_full a = upper_full b \<Longrightarrow> isspace b" for a b
  proof -
    assume sp: "isspace a" and eq: "upper_full a = upper_full b"
    have m: "(of_char a :: nat) \<in> set (upper_full b)"
      using upper_full_space [OF sp] eq by simp
    have "\<not> isspace (char_of (of_char a :: nat))" if nb: "\<not> isspace b"
      by (rule upper_full_no_space [OF nb m nat_of_char_less_256])
    then show "isspace b" using sp by auto
  qed
  show ?thesis using imp [of c d] imp [of d c] assms by auto
qed

lemma dropWhile_list_all2:
  assumes "list_all2 R xs ys" and "\<And>x y. R x y \<Longrightarrow> P x = P y"
  shows "list_all2 R (dropWhile P xs) (dropWhile P ys)"
  using assms(1)
proof (induction rule: list_all2_induct)
  case Nil
  then show ?case by simp
next
  case (Cons x xs y ys)
  then show ?case using assms(2) [of x y] by simp
qed

lemma str_strip_list_all2:
  assumes "list_all2 (\<lambda>c d. upper_full c = upper_full d) t u"
  shows "list_all2 (\<lambda>c d. upper_full c = upper_full d) (str_strip t) (str_strip u)"
proof -
  have s: "\<And>x y. upper_full x = upper_full y \<Longrightarrow> isspace x = isspace y"
    by (rule upper_full_same_space)
  have "list_all2 (\<lambda>c d. upper_full c = upper_full d) (dropWhile isspace t) (dropWhile isspace u)"
    using assms s by (rule dropWhile_list_all2)
  then have "list_all2 (\<lambda>c d. upper_full c = upper_full d)
      (rev (dropWhile isspace t)) (rev (dropWhile isspace u))"
    by (simp only: list_all2_rev)
  then have "list_all2 (\<lambda>c d. upper_full c = upper_full d)
      (dropWhile isspace (rev (dropWhile isspace t))) (dropWhile isspace (rev (dropWhile isspace u)))"
    using s by (rule dropWhile_list_all2)
  then show ?thesis by (simp only: str_strip_def list_all2_rev)
qed

lemma normalize_nilai_same_upper:
  assumes "list_all2 (\<lambda>c d. upper_full c = upper_full d) t u"
  shows "normalize_nilai t = normalize_nilai u"
proof -
  have "map upper_full (str_strip t) = map upper_full (str_strip u)"
    using str_strip_list_all2 [OF assms]
    by (induction rule: list_all2_induct) simp_all
  then show ?thesis by (simp add: normalize_nilai_def str_upper_def)
qed

lemmas normalize_eval =
  normalize_nilai_def str_strip_def str_upper_def isspace_def space_code_def upper_full_def
  upper_code_def py_str_def

text \<open>
  Values that Python gives for \<^verbatim>\<open>.strip().upper()\<close>: the no-break space 160 and the control
  133 are stripped, \<^verbatim>\<open>e\<close> with acute accent 233 becomes 201, and the three characters
  whose upper case is not one Latin-1 character become 924, \<^verbatim>\<open>SS\<close> and 376.
\<close>

lemma normalize_latin1_examples:
  "normalize_nilai [CHR ''a'', CHR 0xA0] = py_str ''A''"
  "normalize_nilai [CHR 0x85, CHR ''b'', CHR ''+'', CHR 0x1F] = py_str ''B+''"
  "normalize_nilai [CHR 0xE9] = [201]"
  "normalize_nilai [CHR 0xB5] = [924]"
  "normalize_nilai [CHR 0xDF] = [83, 83]"
  "normalize_nilai [CHR 0xFF] = [376]"
  "normalize_nilai [CHR 0xF7, CHR 0xAA] = [247, 170]"
  by (simp_all add: normalize_eval)

subsection \<open>Facts about rounding to binary64\<close>

lemma pow2_powi: "pow2 e = 2 powi e"
  by (simp add: pow2_def power_int_def inverse_eq_divide power_one_over)

lemma pow2_pos: "0 < pow2 e"
  by (simp add: pow2_def)

lemma pow2_add: "pow2 (a + b) = pow2 a * pow2 b"
  by (simp add: pow2_powi power_int_add)

lemma pow2_diff: "pow2 (a - b) = pow2 a / pow2 b"
  using pow2_add [of "a - b" b] pow2_pos [of b] by (simp add: field_simps)

lemma pow2_mono: "a \<le> b \<Longrightarrow> pow2 a \<le> pow2 b"
  by (simp add: pow2_powi power_int_increasing)

lemma pow2_less_cancel: "pow2 a < pow2 b \<Longrightarrow> a < b"
  using pow2_mono [of b a] by (cases "a < b") simp_all

lemma pow2_nat: "0 \<le> e \<Longrightarrow> pow2 e = 2 ^ nat e"
  by (simp add: pow2_def)

lemma pow2_of_int: "0 \<le> e \<Longrightarrow> pow2 e = of_int (2 ^ nat e)"
  by (simp add: pow2_def)

lemma round_half_even_of_int: "round_half_even (of_int k) = k"
  by (simp add: round_half_even_def)

lemma round_half_even_err: "\<bar>of_int (round_half_even y) - y\<bar> \<le> 1 / 2"
proof -
  have "of_int \<lfloor>y\<rfloor> \<le> y" "y < of_int \<lfloor>y\<rfloor> + 1"
    by linarith+
  then show ?thesis
    by (auto simp add: round_half_even_def Let_def)
qed

lemma ilog2_le:
  assumes "0 < x"
  shows "pow2 (ilog2 x) \<le> x"
proof (cases "1 \<le> x")
  case True
  then have pos: "0 < \<lfloor>x\<rfloor>" by linarith
  then have b: "1 \<le> bitlen \<lfloor>x\<rfloor>"
    using bitlen_eq_zero_iff [of "\<lfloor>x\<rfloor>"] bitlen_nonneg [of "\<lfloor>x\<rfloor>"] by linarith
  have "(2::int) ^ nat (bitlen \<lfloor>x\<rfloor> - 1) \<le> \<lfloor>x\<rfloor>"
    using bitlen_bounds [OF pos] by simp
  then have "(of_int (2 ^ nat (bitlen \<lfloor>x\<rfloor> - 1)) :: rat) \<le> of_int \<lfloor>x\<rfloor>"
    by (simp only: of_int_le_iff)
  also have "\<dots> \<le> x" by linarith
  finally show ?thesis
    using True b by (simp add: ilog2_def pow2_of_int)
next
  case False
  define y where "y = 1 / x"
  define j where "j = bitlen \<lfloor>y\<rfloor> - 1"
  have y1: "1 < y" using False assms by (simp add: y_def)
  then have pos: "0 < \<lfloor>y\<rfloor>" by linarith
  then have j0: "0 \<le> j"
    using bitlen_eq_zero_iff [of "\<lfloor>y\<rfloor>"] bitlen_nonneg [of "\<lfloor>y\<rfloor>"] by (simp add: j_def)
  have "\<lfloor>y\<rfloor> < 2 ^ nat (bitlen \<lfloor>y\<rfloor>)"
    using bitlen_bounds [OF pos] by simp
  then have "\<lfloor>y\<rfloor> + 1 \<le> 2 ^ nat (j + 1)" by (simp add: j_def)
  then have "(of_int (\<lfloor>y\<rfloor> + 1) :: rat) \<le> of_int (2 ^ nat (j + 1))"
    by (simp only: of_int_le_iff)
  moreover have "y < of_int (\<lfloor>y\<rfloor> + 1)" by linarith
  ultimately have "y < pow2 (j + 1)"
    using j0 by (simp add: pow2_of_int)
  then have "1 / pow2 (j + 1) < 1 / y"
    using y1 by (simp add: frac_less2)
  then have "pow2 (- j - 1) < x"
    using pow2_diff [of 0 "j + 1"] assms by (simp add: y_def pow2_def)
  then show ?thesis
    using False by (simp add: ilog2_def Let_def y_def [symmetric] j_def [symmetric])
qed

lemma pow2_53: "pow2 53 = 2 ^ 53"
  by (simp add: pow2_def)

lemma pow2_52: "pow2 52 = 2 ^ 52"
  by (simp add: pow2_def)

lemma to_binary64_exact:
  assumes k: "\<bar>k\<bar> < 2 ^ 53" and c: "- 1074 \<le> c"
  shows "to_binary64 (of_int k * pow2 c) = of_int k * pow2 c"
proof (cases "k = 0")
  case True
  then show ?thesis by (simp add: to_binary64_def)
next
  case False
  define x where "x = (of_int k :: rat) * pow2 c"
  define e where "e = max (ilog2 \<bar>x\<bar>) (- 1022)"
  have x0: "x \<noteq> 0" using False pow2_pos [of c] by (simp add: x_def)
  have absx: "\<bar>x\<bar> = of_int \<bar>k\<bar> * pow2 c"
    using pow2_pos [of c] by (simp add: x_def abs_mult)
  have "(of_int \<bar>k\<bar> :: rat) < of_int (2 ^ 53)"
    using k by (simp only: of_int_less_iff)
  then have "\<bar>x\<bar> < 2 ^ 53 * pow2 c"
    using pow2_pos [of c] by (simp add: absx)
  also have "\<dots> = pow2 (53 + c)"
    by (simp only: pow2_add pow2_53)
  finally have ub: "\<bar>x\<bar> < pow2 (53 + c)" .
  have "pow2 (ilog2 \<bar>x\<bar>) \<le> \<bar>x\<bar>" using x0 by (simp add: ilog2_le)
  then have "pow2 (ilog2 \<bar>x\<bar>) < pow2 (53 + c)" using ub by simp
  then have "ilog2 \<bar>x\<bar> < 53 + c" by (rule pow2_less_cancel)
  then have ec: "0 \<le> c - (e - 52)" using c by (simp add: e_def)
  have "x / pow2 (e - 52) = of_int k * pow2 (c - (e - 52))"
    by (simp add: x_def pow2_diff [of c])
  also have "\<dots> = of_int (k * 2 ^ nat (c - (e - 52)))"
    using ec by (simp add: pow2_of_int)
  finally have xe: "x / pow2 (e - 52) = of_int (k * 2 ^ nat (c - (e - 52)))" .
  have "of_int (round_half_even (x / pow2 (e - 52))) * pow2 (e - 52)
      = x / pow2 (e - 52) * pow2 (e - 52)"
    by (simp only: xe round_half_even_of_int)
  also have "\<dots> = x"
    using pow2_pos [of "e - 52"] by simp
  finally show ?thesis
    using x0 by (simp add: to_binary64_def Let_def x_def [symmetric] e_def [symmetric])
qed

lemma to_binary64_err:
  assumes "pow2 (- 1022) \<le> \<bar>x\<bar>"
  shows "\<bar>to_binary64 x - x\<bar> \<le> \<bar>x\<bar> / 2 ^ 53"
proof -
  define e where "e = max (ilog2 \<bar>x\<bar>) (- 1022)"
  define u where "u = pow2 (e - 52)"
  have x0: "x \<noteq> 0" using assms pow2_pos [of "- 1022"] by auto
  have u0: "0 < u" by (simp add: u_def pow2_pos)
  have "pow2 (ilog2 \<bar>x\<bar>) \<le> \<bar>x\<bar>" using x0 by (simp add: ilog2_le)
  then have pe: "pow2 e \<le> \<bar>x\<bar>" using assms by (simp add: e_def max_def)
  have "u / 2 = pow2 e / 2 ^ 53"
    by (simp add: u_def pow2_diff [of e 52] pow2_52)
  then have half: "u / 2 \<le> \<bar>x\<bar> / 2 ^ 53"
    using pe by (simp add: divide_right_mono)
  have "to_binary64 x - x = (of_int (round_half_even (x / u)) - x / u) * u"
    using x0 u0 by (simp add: to_binary64_def Let_def e_def [symmetric] u_def [symmetric] algebra_simps)
  then have "\<bar>to_binary64 x - x\<bar> = \<bar>of_int (round_half_even (x / u)) - x / u\<bar> * u"
    using u0 by (simp add: abs_mult)
  also have "\<dots> \<le> 1 / 2 * u"
    using round_half_even_err [of "x / u"] u0 by (simp only: mult_right_mono less_imp_le)
  finally show ?thesis using half by simp
qed

lemma to_binary64_nonzero:
  assumes "pow2 (- 1022) \<le> \<bar>x\<bar>"
  shows "to_binary64 x \<noteq> 0"
proof
  assume "to_binary64 x = 0"
  then have "\<bar>x\<bar> \<le> \<bar>x\<bar> / 2 ^ 53"
    using to_binary64_err [OF assms] by simp
  moreover have "0 < \<bar>x\<bar>" using assms pow2_pos [of "- 1022"] by linarith
  ultimately show False by (simp add: field_simps)
qed

lemma float_of_int_nonzero: "n \<noteq> 0 \<Longrightarrow> float_of_int n \<noteq> 0"
proof -
  assume n: "n \<noteq> 0"
  have "pow2 (- 1022) \<le> 1" by (simp add: pow2_def)
  moreover have "(1::rat) \<le> \<bar>of_int n\<bar>"
  proof -
    have "1 \<le> \<bar>n\<bar>" using n by simp
    then have "(of_int 1 :: rat) \<le> of_int \<bar>n\<bar>" by (simp only: of_int_le_iff)
    then show ?thesis by simp
  qed
  ultimately have "pow2 (- 1022) \<le> \<bar>(of_int n :: rat)\<bar>" by linarith
  then show ?thesis
    unfolding float_of_int_def by (rule to_binary64_nonzero)
qed

subsection \<open>The loop in closed form\<close>

lemma valid_row_map_of: "valid_row row \<Longrightarrow> map_of bobot_nilai (normalize_nilai (row_nilai row)) = Some (row_bobot row)"
  by (auto simp add: valid_row_def row_bobot_def map_of_eq_None_iff split: option.splits)

lemma invalid_row_map_of: "\<not> valid_row row \<Longrightarrow> map_of bobot_nilai (normalize_nilai (row_nilai row)) = None"
  by (simp add: valid_row_def map_of_eq_None_iff)

lemma ips_loop_Cons:
  "ips_loop (row # rows) ts tb det =
     (case map_of bobot_nilai (normalize_nilai (row_nilai row)) of
        None \<Rightarrow> Inl (HTTPException 400 (invalid_grade_detail (normalize_nilai (row_nilai row))))
      | Some b \<Rightarrow>
          ips_loop rows (ts + row_sks row)
            (float_add tb (float_mul b (float_of_int (row_sks row))))
            (det @ [\<lparr>nilai = normalize_nilai (row_nilai row), sks = row_sks row, bobot = b,
                     bobot_x_sks = round2 (float_mul b (float_of_int (row_sks row)))\<rparr>]))"
  by (cases row) (auto simp add: row_nilai_def row_sks_def Let_def split: option.splits)

lemma ips_loop_valid:
  "list_all valid_row rows \<Longrightarrow>
     ips_loop rows ts tb det =
       Inr (ts + sum_sks rows,
            foldl (\<lambda>acc row. float_add acc (float_mul (row_bobot row) (float_of_int (row_sks row)))) tb rows,
            det @ map detail_of rows)"
proof (induction rows arbitrary: ts tb det)
  case Nil
  then show ?case by (simp add: sum_sks_def)
next
  case (Cons row rows)
  then have v: "valid_row row" and vs: "list_all valid_row rows" by simp_all
  show ?case
    by (simp add: ips_loop_Cons valid_row_map_of [OF v] Cons.IH [OF vs] sum_sks_def detail_of_def)
qed

lemma ips_loop_invalid:
  "list_all valid_row pre \<Longrightarrow> \<not> valid_row bad \<Longrightarrow>
     ips_loop (pre @ bad # post) ts tb det =
       Inl (HTTPException 400 (invalid_grade_detail (normalize_nilai (row_nilai bad))))"
proof (induction pre arbitrary: ts tb det)
  case Nil
  then show ?case by (simp add: ips_loop_Cons invalid_row_map_of)
next
  case (Cons row pre)
  then have v: "valid_row row" and vs: "list_all valid_row pre" by simp_all
  show ?case
    using Cons.prems(2) by (simp add: ips_loop_Cons valid_row_map_of [OF v] Cons.IH [OF vs])
qed

lemma get_ips_nonempty:
  "rows \<noteq> [] \<Longrightarrow>
   get_ips nim_q (Inr rows) =
     (case ips_loop rows 0 0 [] of
        Inl exc \<Rightarrow> Inl exc
      | Inr (tot_sks, tot_bobot, det) \<Rightarrow>
          if tot_sks = 0 then Inl (HTTPException 400 zero_sks_detail)
          else (case float_truediv tot_bobot (float_of_int tot_sks) of
                  Inl e \<Rightarrow> Inl (HTTPException 500 (str_of_exception e))
                | Inr ips_v \<Rightarrow>
                    Inr \<lparr>nim = fst (hd rows), nama = fst (snd (hd rows)),
                         jurusan = fst (snd (snd (hd rows))),
                         total_sks = tot_sks, total_bobot = round2 tot_bobot,
                         ips = round2 ips_v, detail_perhitungan = det\<rparr>))"
  by (cases rows) (auto simp add: get_ips_def split: sum.splits prod.splits)

lemma get_ips_valid:
  assumes "rows \<noteq> []" and "list_all valid_row rows"
  shows "get_ips nim_q (Inr rows) =
     (if sum_sks rows = 0 then Inl (HTTPException 400 zero_sks_detail)
      else Inr \<lparr>nim = fst (hd rows), nama = fst (snd (hd rows)), jurusan = fst (snd (snd (hd rows))),
                total_sks = sum_sks rows, total_bobot = round2 (acc_bobot rows),
                ips = round2 (to_binary64 (acc_bobot rows / float_of_int (sum_sks rows))),
                detail_perhitungan = map detail_of rows\<rparr>)"
proof -
  have loop: "ips_loop rows 0 0 [] = Inr (sum_sks rows, acc_bobot rows, map detail_of rows)"
    using ips_loop_valid [OF assms(2), of 0 0 "[]"] by (simp add: acc_bobot_def)
  show ?thesis
    using float_of_int_nonzero [of "sum_sks rows"]
    by (simp add: get_ips_nonempty [OF assms(1)] loop float_truediv_def)
qed

lemma get_ips_invalid:
  assumes "list_all valid_row pre" and "\<not> valid_row bad"
  shows "get_ips nim_q (Inr (pre @ bad # post)) =
     Inl (HTTPException 400 (invalid_grade_detail (normalize_nilai (row_nilai bad))))"
  using ips_loop_invalid [OF assms, of post 0 0 "[]"]
  by (simp add: get_ips_nonempty)

subsection \<open>Exact accumulation of quarter multiples\<close>

lemma pow2_minus2: "pow2 (- 2) = 1 / 4"
  by (simp add: pow2_def)

lemma pow2_0: "pow2 0 = 1"
  by (simp add: pow2_def)

lemma to_binary64_quarter:
  "\<bar>k\<bar> < 2 ^ 53 \<Longrightarrow> to_binary64 (of_int k / 4) = of_int k / 4"
  using to_binary64_exact [of k "- 2"] by (simp add: pow2_minus2)

lemma float_of_int_exact: "\<bar>n\<bar> < 2 ^ 53 \<Longrightarrow> float_of_int n = of_int n"
  using to_binary64_exact [of n 0] by (simp add: pow2_0 float_of_int_def)

lemma round2_quarter:
  assumes "\<bar>k\<bar> < 2 ^ 53"
  shows "round2 (of_int k / 4) = of_int k / 4"
proof -
  have "(of_int k / 4 :: rat) * 100 = of_int (25 * k)" by simp
  then have "round_half_even (of_int k / 4 * 100) = 25 * k"
    by (simp only: round_half_even_of_int)
  then have "round2 (of_int k / 4) = to_binary64 (of_int (25 * k) / 100)"
    by (simp only: round2_def)
  also have "(of_int (25 * k) / 100 :: rat) = of_int k / 4" by simp
  finally show ?thesis using assms by (simp only: to_binary64_quarter)
qed

lemma bobot_quarters:
  assumes "valid_row row"
  shows "\<exists>w. row_bobot row = of_int w / 4 \<and> 0 \<le> w \<and> w \<le> 16"
proof -
  have "(normalize_nilai (row_nilai row), row_bobot row) \<in> set bobot_nilai"
    using valid_row_map_of [OF assms] by (rule map_of_SomeD)
  then have "row_bobot row \<in> (\<lambda>w. of_int w / 4) ` {16, 15, 14, 12, 11, 10, 8, 4, 0 :: int}"
    by (auto simp add: bobot_nilai_def)
  then obtain w where "row_bobot row = of_int w / 4" and "w \<in> {16, 15, 14, 12, 11, 10, 8, 4, 0 :: int}"
    by (rule imageE)
  then have "row_bobot row = of_int w / 4 \<and> 0 \<le> w \<and> w \<le> 16"
    by auto
  then show ?thesis ..
qed

lemma row_product_exact:
  assumes v: "valid_row row" and s: "16 * \<bar>row_sks row\<bar> < 2 ^ 53"
  shows "\<exists>p. float_mul (row_bobot row) (float_of_int (row_sks row))
             = row_bobot row * of_int (row_sks row)
           \<and> row_bobot row * of_int (row_sks row) = of_int p / 4
           \<and> \<bar>p\<bar> \<le> 16 * \<bar>row_sks row\<bar>"
proof -
  obtain w where w: "row_bobot row = of_int w / 4" "0 \<le> w" "w \<le> 16"
    using bobot_quarters [OF v] by blast
  define p where "p = w * row_sks row"
  have "\<bar>p\<bar> = w * \<bar>row_sks row\<bar>" using w(2) by (simp add: p_def abs_mult)
  also have "\<dots> \<le> 16 * \<bar>row_sks row\<bar>" using w(3) by (simp add: mult_right_mono)
  finally have pb: "\<bar>p\<bar> \<le> 16 * \<bar>row_sks row\<bar>" .
  have fi: "float_of_int (row_sks row) = of_int (row_sks row)"
    using s by (simp add: float_of_int_exact)
  have pq: "row_bobot row * of_int (row_sks row) = of_int p / 4"
    by (simp add: w(1) p_def)
  have "float_mul (row_bobot row) (float_of_int (row_sks row)) = to_binary64 (of_int p / 4)"
    by (simp only: float_mul_def fi pq)
  also have "\<dots> = of_int p / 4"
    using pb s by (simp add: to_binary64_quarter)
  finally show ?thesis using pq pb by auto
qed

lemma foldl_exact:
  assumes "list_all valid_row rows" and "\<bar>k\<bar> + 16 * sum_abs_sks rows < 2 ^ 53"
  shows "\<exists>k'. foldl (\<lambda>acc row. float_add acc (float_mul (row_bobot row) (float_of_int (row_sks row))))
             (of_int k / 4) rows = of_int k / 4 + sum_bobot rows
           \<and> of_int k / 4 + sum_bobot rows = of_int k' / 4
           \<and> \<bar>k'\<bar> \<le> \<bar>k\<bar> + 16 * sum_abs_sks rows"
  using assms
proof (induction rows arbitrary: k)
  case Nil
  then show ?case by (auto simp add: sum_bobot_def sum_abs_sks_def)
next
  case (Cons row rows)
  then have v: "valid_row row" and vs: "list_all valid_row rows" by simp_all
  have nn: "0 \<le> sum_abs_sks rows"
    by (auto simp add: sum_abs_sks_def intro!: sum_list_nonneg)
  have bound: "\<bar>k\<bar> + 16 * \<bar>row_sks row\<bar> + 16 * sum_abs_sks rows < 2 ^ 53"
    using Cons.prems(2) by (simp add: sum_abs_sks_def)
  then have s: "16 * \<bar>row_sks row\<bar> < 2 ^ 53" using nn by linarith
  obtain p where p: "float_mul (row_bobot row) (float_of_int (row_sks row))
        = row_bobot row * of_int (row_sks row)"
      "row_bobot row * of_int (row_sks row) = of_int p / 4"
      "\<bar>p\<bar> \<le> 16 * \<bar>row_sks row\<bar>"
    using row_product_exact [OF v s] by blast
  have kp: "\<bar>k + p\<bar> + 16 * sum_abs_sks rows < 2 ^ 53"
    using bound p(3) by linarith
  then have kp53: "\<bar>k + p\<bar> < 2 ^ 53" using nn by linarith
  have "float_add (of_int k / 4) (float_mul (row_bobot row) (float_of_int (row_sks row)))
      = to_binary64 (of_int (k + p) / 4)"
    by (simp add: float_add_def p(1) p(2) add_divide_distrib)
  also have "\<dots> = of_int (k + p) / 4"
    using kp53 by (rule to_binary64_quarter)
  finally have step: "float_add (of_int k / 4) (float_mul (row_bobot row) (float_of_int (row_sks row)))
      = of_int (k + p) / 4" .
  obtain k' where k': "foldl (\<lambda>acc row. float_add acc (float_mul (row_bobot row) (float_of_int (row_sks row))))
        (of_int (k + p) / 4) rows = of_int (k + p) / 4 + sum_bobot rows"
      "of_int (k + p) / 4 + sum_bobot rows = of_int k' / 4"
      "\<bar>k'\<bar> \<le> \<bar>k + p\<bar> + 16 * sum_abs_sks rows"
    using Cons.IH [OF vs kp] by blast
  have sb: "sum_bobot (row # rows) = of_int p / 4 + sum_bobot rows"
    by (simp add: sum_bobot_def p(2))
  have e1: "of_int k / 4 + sum_bobot (row # rows) = of_int (k + p) / 4 + sum_bobot rows"
    by (simp add: sb add_divide_distrib)
  have "\<bar>k'\<bar> \<le> \<bar>k\<bar> + 16 * sum_abs_sks (row # rows)"
    using k'(3) p(3) by (simp add: sum_abs_sks_def)
  then show ?case
    using k'(1) k'(2) by (auto simp add: step e1)
qed

lemma acc_bobot_exact:
  assumes "list_all valid_row rows" and "16 * sum_abs_sks rows < 2 ^ 53"
  shows "\<exists>k. acc_bobot rows = sum_bobot rows \<and> sum_bobot rows = of_int k / 4
           \<and> \<bar>k\<bar> \<le> 16 * sum_abs_sks rows"
  using foldl_exact [OF assms(1), of 0] assms(2) by (simp add: acc_bobot_def)

subsection \<open>The rounded average is a nearest decimal\<close>

lemma nearest_decimal:
  fixes k n :: int
  assumes k: "\<bar>k\<bar> < 2 ^ 47" and n0: "0 < n" and n: "n < 2 ^ 43"
  shows "\<bar>of_int (round_half_even (to_binary64 (of_int k / 4 / of_int n) * 100)) / 100
           - of_int k / 4 / of_int n\<bar> \<le> (1 / 200 :: rat)"
proof (cases "k = 0")
  case True
  then show ?thesis
    using round_half_even_of_int [of 0] by (simp add: to_binary64_def)
next
  case False
  define q0 :: rat where "q0 = of_int k / 4 / of_int n"
  define q1 where "q1 = to_binary64 q0"
  define m where "m = round_half_even (q1 * 100)"
  define z where "z = 2 * m * n - 50 * k"
  have rn: "(0::rat) < of_int n" using n0 by simp
  have absq: "\<bar>q0\<bar> = of_int \<bar>k\<bar> / (4 * of_int n)"
    using rn by (simp add: q0_def abs_mult)
  have nq: "of_int n * \<bar>q0\<bar> = of_int \<bar>k\<bar> / 4"
    using rn by (simp add: absq)
  have "(1::int) \<le> \<bar>k\<bar>" using False by simp
  then have k1: "(1::rat) \<le> of_int \<bar>k\<bar>" by (metis of_int_1 of_int_le_iff)
  have "4 * n \<le> 2 ^ 45" using n by simp
  then have "(of_int (4 * n) :: rat) \<le> of_int (2 ^ 45)" by (simp only: of_int_le_iff)
  then have n45: "4 * (of_int n :: rat) \<le> 2 ^ 45" by simp
  have "(1::rat) / 2 ^ 45 \<le> of_int \<bar>k\<bar> / (4 * of_int n)"
    using k1 n45 rn by (intro frac_le) simp_all
  moreover have "pow2 (- 1022) \<le> 1 / 2 ^ 45" by (simp add: pow2_def)
  ultimately have "pow2 (- 1022) \<le> \<bar>q0\<bar>" using absq by linarith
  then have t2: "\<bar>q1 - q0\<bar> \<le> \<bar>q0\<bar> / 2 ^ 53"
    unfolding q1_def by (rule to_binary64_err)
  have t1: "\<bar>of_int m - q1 * 100\<bar> \<le> 1 / 2"
    unfolding m_def by (rule round_half_even_err)
  have d: "\<bar>of_int m - 100 * q0\<bar> \<le> 1 / 2 + 100 * (\<bar>q0\<bar> / 2 ^ 53)"
    using t1 t2 by linarith
  have zeq: "of_int z = 2 * of_int n * (of_int m - 100 * q0)"
    using rn by (simp add: z_def q0_def field_simps)
  then have zabs: "of_int \<bar>z\<bar> = 2 * of_int n * \<bar>of_int m - 100 * q0\<bar>"
    using rn by (simp add: abs_mult)
  have zn: "\<bar>z\<bar> \<le> n"
  proof (rule ccontr)
    assume "\<not> \<bar>z\<bar> \<le> n"
    then have "n + 1 \<le> \<bar>z\<bar>" by simp
    then have "(of_int (n + 1) :: rat) \<le> of_int \<bar>z\<bar>" by (simp only: of_int_le_iff)
    then have "(of_int n :: rat) + 1 \<le> 2 * of_int n * \<bar>of_int m - 100 * q0\<bar>"
      using zabs by simp
    also have "\<dots> \<le> 2 * of_int n * (1 / 2 + 100 * (\<bar>q0\<bar> / 2 ^ 53))"
      using d rn by (simp add: mult_left_mono)
    also have "\<dots> = of_int n + 200 * (of_int n * \<bar>q0\<bar>) / 2 ^ 53"
      by (simp add: algebra_simps)
    also have "\<dots> = of_int n + 50 * of_int \<bar>k\<bar> / 2 ^ 53"
      by (simp add: nq)
    finally have "(2 ^ 53 :: rat) \<le> 50 * of_int \<bar>k\<bar>" by simp
    then have "(of_int (2 ^ 53) :: rat) \<le> of_int (50 * \<bar>k\<bar>)" by simp
    then have "(2 ^ 53 :: int) \<le> 50 * \<bar>k\<bar>" by (simp only: of_int_le_iff)
    then show False using k by simp
  qed
  then have "(of_int \<bar>z\<bar> :: rat) \<le> of_int n" by (simp only: of_int_le_iff)
  then have "2 * of_int n * \<bar>of_int m - 100 * q0\<bar> \<le> of_int n * 1"
    using zabs by simp
  then have "2 * \<bar>of_int m - 100 * q0\<bar> \<le> 1"
    using rn by (simp only: mult.assoc mult.left_commute [of 2] mult_le_cancel_left_pos)
  moreover have "\<bar>(of_int m - 100 * q0) / 100\<bar> = \<bar>of_int m - 100 * q0\<bar> / 100"
    by simp
  moreover have "(of_int m - 100 * q0) / 100 = of_int m / 100 - q0"
    by (simp add: diff_divide_distrib)
  ultimately have "\<bar>of_int m / 100 - q0\<bar> \<le> 1 / 200" by linarith
  then show ?thesis by (simp only: m_def q1_def q0_def)
qed

subsection \<open>The first invalid row\<close>

lemma find_invalid_split:
  "List.find (\<lambda>row. \<not> valid_row row) rows = Some bad \<Longrightarrow>
     \<not> valid_row bad \<and> (\<exists>post. rows = takeWhile valid_row rows @ bad # post)"
  by (induction rows) (auto split: if_splits)

lemma find_invalid_exists:
  "\<not> list_all valid_row rows \<Longrightarrow> \<exists>bad. List.find (\<lambda>row. \<not> valid_row row) rows = Some bad"
  by (induction rows) auto

lemma list_all_takeWhile: "list_all P (takeWhile P xs)"
  by (induction xs) auto

lemma invalid_grade_detail_inj:
  "invalid_grade_detail a = invalid_grade_detail b \<Longrightarrow> a = b"
  by (simp add: invalid_grade_detail_def)

lemma invalid_grade_detail_keys:
  "invalid_grade_detail tok =
     py_str ''Nilai '' @ repr_str tok @ py_str '' tidak dikenali. Harus salah satu: ''
       @ repr_list (map py_str [''A'', ''A-'', ''B+'', ''B'', ''B-'', ''C+'', ''C'', ''D'', ''E''])"
  by (simp add: invalid_grade_detail_def repr_str_def bobot_nilai_def)

lemma ips_loop_Inl_400:
  "ips_loop rows ts tb det = Inl e \<Longrightarrow> status_code e = 400"
proof (induction rows arbitrary: ts tb det)
  case Nil
  then show ?case by simp
next
  case (Cons row rows)
  then show ?case
    by (auto simp add: ips_loop_Cons split: option.splits)
qed

lemma get_ips_first_invalid:
  assumes "List.find (\<lambda>row. \<not> valid_row row) rows = Some bad"
  shows "get_ips nim_q (Inr (takeWhile valid_row rows @ bad # later)) =
     Inl (HTTPException 400 (invalid_grade_detail (normalize_nilai (row_nilai bad))))"
  using find_invalid_split [OF assms] get_ips_invalid [OF list_all_takeWhile, of bad]
  by simp

lemma get_ips_find_invalid:
  assumes "List.find (\<lambda>row. \<not> valid_row row) rows = Some bad"
  shows "get_ips nim_q (Inr rows) =
     Inl (HTTPException 400 (invalid_grade_detail (normalize_nilai (row_nilai bad))))"
proof -
  obtain post where rows: "rows = takeWhile valid_row rows @ bad # post"
    using find_invalid_split [OF assms] by blast
  have "get_ips nim_q (Inr (takeWhile valid_row rows @ bad # post)) =
       Inl (HTTPException 400 (invalid_grade_detail (normalize_nilai (row_nilai bad))))"
    by (rule get_ips_first_invalid [OF assms])
  then show ?thesis using rows by simp
qed

subsection \<open>What strip removes\<close>

lemma str_strip_decomp:
  "\<exists>w1 w2. t = w1 @ str_strip t @ w2 \<and> list_all isspace w1 \<and> list_all isspace w2"
proof -
  define u where "u = dropWhile isspace t"
  have "rev (takeWhile isspace (rev u) @ dropWhile isspace (rev u)) = rev (rev u)"
    by (simp only: takeWhile_dropWhile_id)
  then have u: "u = str_strip t @ rev (takeWhile isspace (rev u))"
    by (simp only: rev_append rev_rev_ident str_strip_def u_def)
  have "t = takeWhile isspace t @ u" by (simp add: u_def)
  then have "t = takeWhile isspace t @ str_strip t @ rev (takeWhile isspace (rev u))"
    using u by simp
  moreover have "list_all isspace (takeWhile isspace t)" by (rule list_all_takeWhile)
  moreover have "list_all isspace (rev (takeWhile isspace (rev u)))"
    using list_all_takeWhile [of isspace "rev u"] by (simp add: list_all_iff)
  ultimately show ?thesis by blast
qed

lemma upper_full_ascii:
  "97 \<le> (of_char c :: nat) \<and> (of_char c :: nat) \<le> 122 \<Longrightarrow> upper_full c = [of_char c - 32]"
  by (simp add: upper_full_def upper_code_def)

subsection \<open>No division by zero, and rows of weight zero\<close>

lemma get_ips_not_zero_division:
  "get_ips nim_q (Inr rows) \<noteq> Inl (HTTPException 500 (str_of_exception ZeroDivisionError))"
proof (cases "rows = []")
  case True
  then show ?thesis by (simp add: get_ips_def)
next
  case False
  show ?thesis
  proof (cases "ips_loop rows 0 0 []")
    case (Inl e)
    then have "status_code e = 400" by (rule ips_loop_Inl_400)
    then show ?thesis
      using Inl by (auto simp add: get_ips_nonempty [OF False])
  next
    case (Inr res)
    obtain ts tb det where res: "res = (ts, tb, det)" by (cases res) auto
    show ?thesis
      using float_of_int_nonzero [of ts]
      by (simp add: get_ips_nonempty [OF False] Inr res float_truediv_def)
  qed
qed

lemma to_binary64_0: "to_binary64 0 = 0"
  by (simp add: to_binary64_def)

lemma round2_0: "round2 0 = 0"
  using round_half_even_of_int [of 0] by (simp add: round2_def to_binary64_0)

lemma acc_bobot_all_E:
  "list_all (\<lambda>row. row_bobot row = 0) rows \<Longrightarrow>
     foldl (\<lambda>acc row. float_add acc (float_mul (row_bobot row) (float_of_int (row_sks row)))) 0 rows = 0"
  by (induction rows) (simp_all add: float_add_def float_mul_def to_binary64_0)

lemma sum_sks_pos:
  "rows \<noteq> [] \<Longrightarrow> list_all (\<lambda>row. 0 < row_sks row) rows \<Longrightarrow> 0 < sum_sks rows"
proof (induction rows)
  case Nil
  then show ?case by simp
next
  case (Cons row rows)
  then show ?case
    by (cases "rows = []") (auto simp add: sum_sks_def)
qed

subsection \<open>Rows in normalized form\<close>

lemma normalized_form_fields:
  assumes "normalized_form row row'"
  shows "normalize_nilai (row_nilai row') = normalize_nilai (row_nilai row)"
    and "row_sks row' = row_sks row"
    and "fst row' = fst row" and "fst (snd row') = fst (snd row)"
    and "fst (snd (snd row')) = fst (snd (snd row))"
proof -
  obtain r0 r1 r2 r3 r4 where r: "row = (r0, r1, r2, r3, r4)" by (cases row) auto
  obtain s0 s1 s2 s3 s4 where s: "row' = (s0, s1, s2, s3, s4)" by (cases row') auto
  have e: "s0 = r0" "s1 = r1" "s2 = r2" "py_str s3 = normalize_nilai r3" "s4 = r4"
    using assms by (simp_all add: normalized_form_def r s)
  show "normalize_nilai (row_nilai row') = normalize_nilai (row_nilai row)"
    using normalize_nilai_fixed [OF e(4)] by (simp add: row_nilai_def r s)
  show "row_sks row' = row_sks row" by (simp add: row_sks_def r s e)
  show "fst row' = fst row" "fst (snd row') = fst (snd row)"
    "fst (snd (snd row')) = fst (snd (snd row))"
    by (simp_all add: r s e)
qed

lemma ips_loop_normalized_form:
  "list_all2 normalized_form rows rows' \<Longrightarrow>
     ips_loop rows' ts tb det = ips_loop rows ts tb det"
proof (induction arbitrary: ts tb det rule: list_all2_induct)
  case Nil
  then show ?case by simp
next
  case (Cons row rows row' rows')
  show ?case
    by (auto simp add: ips_loop_Cons normalized_form_fields [OF Cons.hyps(1)] Cons.IH
        split: option.splits)
qed

lemma get_ips_normalized_form:
  assumes "list_all2 normalized_form rows rows'"
  shows "get_ips nim_q (Inr rows') = get_ips nim_q (Inr rows)"
proof (cases rows)
  case Nil
  then show ?thesis using assms by simp
next
  case (Cons row rest)
  then obtain row' rest' where c': "rows' = row' # rest'" and n: "normalized_form row row'"
    using assms by (auto simp add: list_all2_Cons1)
  have h: "fst (hd rows') = fst (hd rows)" "fst (snd (hd rows')) = fst (snd (hd rows))"
      "fst (snd (snd (hd rows'))) = fst (snd (snd (hd rows)))"
    using normalized_form_fields(3-5) [OF n] by (simp_all add: Cons c')
  have ne: "rows \<noteq> []" "rows' \<noteq> []" by (simp_all add: Cons c')
  show ?thesis
    by (simp only: get_ips_nonempty [OF ne(1)] get_ips_nonempty [OF ne(2)]
        ips_loop_normalized_form [OF assms] h)
qed

lemma get_ips_Inr_valid:
  assumes "get_ips nim_q (Inr rows) = Inr r"
  shows "rows \<noteq> [] \<and> list_all valid_row rows"
proof -
  have "rows \<noteq> []" using assms by (auto simp add: get_ips_def)
  moreover have "list_all valid_row rows"
  proof (rule ccontr)
    assume "\<not> list_all valid_row rows"
    then obtain bad where "List.find (\<lambda>row. \<not> valid_row row) rows = Some bad"
      using find_invalid_exists by blast
    then show False using get_ips_find_invalid [of rows bad nim_q] assms by simp
  qed
  ultimately show ?thesis ..
qed

subsection \<open>Unique nearest integers, and the exact average\<close>

lemma round_half_even_unique:
  assumes "\<bar>of_int m - y\<bar> < (1 / 2 :: rat)"
  shows "round_half_even y = m"
proof -
  have f: "of_int \<lfloor>y\<rfloor> \<le> y" "y < of_int \<lfloor>y\<rfloor> + 1" by linarith+
  have lo: "of_int m - 1 / 2 < y" and hi: "y < of_int m + 1 / 2"
    using assms by linarith+
  have "(of_int \<lfloor>y\<rfloor> :: rat) < of_int m + 1" "(of_int m :: rat) - 2 < of_int \<lfloor>y\<rfloor>"
    using f lo hi by linarith+
  then have "(of_int \<lfloor>y\<rfloor> :: rat) < of_int (m + 1)" "(of_int (m - 2) :: rat) < of_int \<lfloor>y\<rfloor>"
    by simp_all
  then have "\<lfloor>y\<rfloor> < m + 1" "m - 2 < \<lfloor>y\<rfloor>"
    by (simp_all only: of_int_less_iff)
  then have "\<lfloor>y\<rfloor> = m \<or> \<lfloor>y\<rfloor> = m - 1" by linarith
  then show ?thesis
  proof
    assume e: "\<lfloor>y\<rfloor> = m"
    have "y - of_int m < 1 / 2" using hi by linarith
    then show ?thesis by (simp add: round_half_even_def Let_def e)
  next
    assume e: "\<lfloor>y\<rfloor> = m - 1"
    have "(of_int (m - 1) :: rat) = of_int m - 1" by simp
    then have "1 / 2 < y - of_int (m - 1)" using lo by linarith
    then show ?thesis by (simp add: round_half_even_def Let_def e)
  qed
qed

lemma floor_half_unique:
  assumes "\<bar>of_int m - y\<bar> < (1 / 2 :: rat)"
  shows "\<lfloor>y + 1 / 2\<rfloor> = m"
proof (rule floor_unique)
  show "of_int m \<le> y + 1 / 2" using assms by linarith
  show "y + 1 / 2 < of_int m + 1" using assms by linarith
qed

lemma not_tie_strict:
  assumes b: "\<bar>of_int m - y\<bar> \<le> (1 / 2 :: rat)" and t: "y - of_int \<lfloor>y\<rfloor> \<noteq> 1 / 2"
  shows "\<bar>of_int m - y\<bar> < 1 / 2"
proof (rule ccontr)
  assume "\<not> \<bar>of_int m - y\<bar> < 1 / 2"
  then have "\<bar>of_int m - y\<bar> = 1 / 2" using b by linarith
  then have "y = of_int m + 1 / 2 \<or> y = of_int (m - 1) + 1 / 2" by (auto simp add: abs_if split: if_splits)
  then show False
  proof
    assume y: "y = of_int m + 1 / 2"
    have "\<lfloor>y\<rfloor> = m" unfolding y by (rule floor_unique) simp_all
    then show False using t y by simp
  next
    assume y: "y = of_int (m - 1) + 1 / 2"
    have "\<lfloor>y\<rfloor> = m - 1" unfolding y by (rule floor_unique) simp_all
    then show False using t y by simp
  qed
qed

lemma abs_sum_sks_le: "\<bar>sum_sks rows\<bar> \<le> sum_abs_sks rows"
  by (induction rows) (auto simp add: sum_sks_def sum_abs_sks_def)

lemma decimal2_quarter: "decimal2_half_even (of_int k / 4) = of_int k / 4"
proof -
  have "(of_int k / 4 :: rat) * 100 = of_int (25 * k)" by simp
  then have "round_half_even (of_int k / 4 * 100) = 25 * k"
    by (simp only: round_half_even_of_int)
  then show ?thesis by (simp add: decimal2_half_even_def)
qed


lemma average_exact:
  assumes v: "list_all valid_row rows" and p: "0 < sum_sks rows"
    and b: "sum_abs_sks rows < 2 ^ 43"
  shows "acc_bobot rows = sum_bobot rows
     \<and> round2 (sum_bobot rows) = sum_bobot rows
     \<and> decimal2_half_even (sum_bobot rows) = sum_bobot rows
     \<and> float_of_int (sum_sks rows) = of_int (sum_sks rows)
     \<and> \<bar>of_int (round_half_even (to_binary64 (weighted_average rows) * 100)) / 100
           - weighted_average rows\<bar> \<le> 1 / 200"
proof -
  have b53: "16 * sum_abs_sks rows < 2 ^ 53" using b by simp
  obtain k where k: "acc_bobot rows = sum_bobot rows" "sum_bobot rows = of_int k / 4"
      "\<bar>k\<bar> \<le> 16 * sum_abs_sks rows"
    using acc_bobot_exact [OF v b53] by blast
  have k47: "\<bar>k\<bar> < 2 ^ 47" using k(3) b by simp
  then have k53: "\<bar>k\<bar> < 2 ^ 53" by simp
  have n43: "sum_sks rows < 2 ^ 43"
    using abs_sum_sks_le [of rows] b by linarith
  then have "\<bar>sum_sks rows\<bar> < 2 ^ 53" using p by simp
  then have fi: "float_of_int (sum_sks rows) = of_int (sum_sks rows)"
    by (rule float_of_int_exact)
  have "\<bar>of_int (round_half_even (to_binary64 (of_int k / 4 / of_int (sum_sks rows)) * 100)) / 100
           - of_int k / 4 / of_int (sum_sks rows)\<bar> \<le> (1 / 200 :: rat)"
    using k47 p n43 by (rule nearest_decimal)
  then show ?thesis
    using k(1) fi by (simp add: k(2) round2_quarter [OF k53] decimal2_quarter weighted_average_def)
qed

subsection \<open>The rounding function yields binary64 numbers\<close>

text \<open>
  Together with \<open>to_binary64_exact\<close> (a binary64 number is rounded to itself) and
  \<open>to_binary64_err\<close> (the error is at most half a unit in the last place), the next
  facts say that \<open>to_binary64\<close> is rounding to a nearest binary64 number. The examples
  are values that Python prints for \<^verbatim>\<open>0.1\<close>, \<^verbatim>\<open>float(2**53 + 1)\<close>, \<^verbatim>\<open>round(0.125, 2)\<close>
  and \<^verbatim>\<open>round(2.675, 2)\<close>.
\<close>

lemma pow2_strict_mono: "a < b \<Longrightarrow> pow2 a < pow2 b"
  by (simp add: pow2_powi power_int_strict_increasing)

lemma ilog2_less:
  assumes "0 < x"
  shows "x < pow2 (ilog2 x + 1)"
proof (cases "1 \<le> x")
  case True
  then have pos: "0 < \<lfloor>x\<rfloor>" by linarith
  then have b: "1 \<le> bitlen \<lfloor>x\<rfloor>"
    using bitlen_eq_zero_iff [of "\<lfloor>x\<rfloor>"] bitlen_nonneg [of "\<lfloor>x\<rfloor>"] by linarith
  have "\<lfloor>x\<rfloor> < 2 ^ nat (bitlen \<lfloor>x\<rfloor>)"
    using bitlen_bounds [OF pos] by simp
  then have "\<lfloor>x\<rfloor> + 1 \<le> 2 ^ nat (bitlen \<lfloor>x\<rfloor>)" by simp
  then have "(of_int (\<lfloor>x\<rfloor> + 1) :: rat) \<le> of_int (2 ^ nat (bitlen \<lfloor>x\<rfloor>))"
    by (simp only: of_int_le_iff)
  moreover have "x < of_int (\<lfloor>x\<rfloor> + 1)" by linarith
  ultimately have "x < pow2 (bitlen \<lfloor>x\<rfloor>)"
    using b by (simp add: pow2_of_int)
  then show ?thesis
    using True by (simp add: ilog2_def)
next
  case False
  define y where "y = 1 / x"
  define j where "j = bitlen \<lfloor>y\<rfloor> - 1"
  have y1: "1 < y" using False assms by (simp add: y_def)
  have xy: "x = 1 / y" by (simp add: y_def)
  have pos: "0 < \<lfloor>y\<rfloor>" using y1 by linarith
  then have j0: "0 \<le> j"
    using bitlen_eq_zero_iff [of "\<lfloor>y\<rfloor>"] bitlen_nonneg [of "\<lfloor>y\<rfloor>"] by (simp add: j_def)
  have "(2::int) ^ nat j \<le> \<lfloor>y\<rfloor>"
    using bitlen_bounds [OF pos] by (simp add: j_def)
  then have "(of_int (2 ^ nat j) :: rat) \<le> of_int \<lfloor>y\<rfloor>"
    by (simp only: of_int_le_iff)
  also have "of_int \<lfloor>y\<rfloor> \<le> y" by linarith
  finally have "pow2 j \<le> y"
    using j0 by (simp only: pow2_of_int)
  then have "1 / y \<le> 1 / pow2 j"
    using pow2_pos [of j] by (simp add: frac_le)
  then have le: "x \<le> pow2 (- j)"
    using pow2_diff [of 0 j] by (simp add: xy pow2_def)
  have il: "ilog2 x = (if x = pow2 (- j) then - j else - j - 1)"
    using False by (simp add: ilog2_def Let_def y_def j_def)
  show ?thesis
  proof (cases "x = pow2 (- j)")
    case True
    have "pow2 (- j) < pow2 (- j + 1)" by (rule pow2_strict_mono) simp
    then have "x < pow2 (- j + 1)" by (simp only: True [symmetric])
    moreover have "ilog2 x = - j" using il True by simp
    ultimately show ?thesis by simp
  next
    case ne: False
    then have "x < pow2 (- j)" using le by simp
    moreover have "ilog2 x + 1 = - j" using il ne by simp
    ultimately show ?thesis by simp
  qed
qed

lemma round_half_even_mono_bound:
  assumes "\<bar>y\<bar> \<le> of_int n"
  shows "\<bar>round_half_even y\<bar> \<le> n"
proof -
  have e: "\<bar>of_int (round_half_even y) - y\<bar> \<le> 1 / 2" by (rule round_half_even_err)
  have "\<bar>(of_int (round_half_even y) :: rat)\<bar> < of_int n + 1"
    using e assms by linarith
  then have "(of_int \<bar>round_half_even y\<bar> :: rat) < of_int (n + 1)" by simp
  then have "\<bar>round_half_even y\<bar> < n + 1" by (simp only: of_int_less_iff)
  then show ?thesis by simp
qed

lemma to_binary64_representable:
  "\<exists>m c. to_binary64 x = of_int m * pow2 c \<and> \<bar>m\<bar> \<le> 2 ^ 53 \<and> - 1074 \<le> c"
proof (cases "x = 0")
  case True
  have "to_binary64 x = of_int 0 * pow2 0 \<and> \<bar>0 :: int\<bar> \<le> 2 ^ 53 \<and> - 1074 \<le> (0 :: int)"
    using True by (simp add: to_binary64_def)
  then show ?thesis by blast
next
  case False
  define e where "e = max (ilog2 \<bar>x\<bar>) (- 1022)"
  define u where "u = pow2 (e - 52)"
  have u0: "0 < u" by (simp add: u_def pow2_pos)
  have "\<bar>x\<bar> < pow2 (ilog2 \<bar>x\<bar> + 1)" using False by (simp add: ilog2_less)
  also have "\<dots> \<le> pow2 (e + 1)" by (rule pow2_mono) (simp add: e_def)
  also have "\<dots> = 2 ^ 53 * u"
    using pow2_add [of 53 "e - 52"] by (simp add: u_def pow2_53 add.commute)
  finally have "\<bar>x\<bar> / u < 2 ^ 53" using u0 by (simp add: pos_divide_less_eq)
  then have "\<bar>x / u\<bar> \<le> of_int (2 ^ 53)" using u0 by simp
  then have m: "\<bar>round_half_even (x / u)\<bar> \<le> 2 ^ 53" by (rule round_half_even_mono_bound)
  have "to_binary64 x = of_int (round_half_even (x / u)) * pow2 (e - 52)"
    using False by (simp add: to_binary64_def Let_def e_def [symmetric] u_def [symmetric])
  moreover have "- 1074 \<le> e - 52" by (simp add: e_def)
  ultimately show ?thesis using m by blast
qed

lemma binary64_examples:
  "to_binary64 (1 / 10) = 3602879701896397 / 2 ^ 55"
  "to_binary64 (2 ^ 53 + 1) = 2 ^ 53"
  "to_binary64 (2 ^ 53 + 3) = 2 ^ 53 + 4"
  "round2 (1 / 8) = to_binary64 (12 / 100)"
  "round2 (3 / 8) = to_binary64 (38 / 100)"
  "round2 (to_binary64 (2675 / 1000)) = to_binary64 (267 / 100)"
  by code_simp+

subsection \<open>Where the accumulation stops being exact\<close>

text \<open>
  Credit hours of \<open>2\<^sup>5\<^sup>3 + 1\<close>, which a 64-bit column can hold, are converted to the float
  \<open>2\<^sup>5\<^sup>3\<close>: the accumulated quality points then differ from the exact sum. This is why
  the exact statement about the totals carries a bound on the credit hours.
\<close>

lemma large_sks_inexact:
  "acc_bobot [(''22010'', ''Joko'', ''TI'', ''B'', 9007199254740993)] = 27021597764222976"
  "sum_bobot [(''22010'', ''Joko'', ''TI'', ''B'', 9007199254740993)] = 27021597764222979"
proof -
  have s: "sint (9007199254740993 :: 64 word) = 9007199254740993" by simp
  have b: "row_bobot (''22010'', ''Joko'', ''TI'', ''B'', 9007199254740993) = 3"
    by (simp add: row_bobot_def row_nilai_def normalize_eval bobot_nilai_def)
  have f: "float_of_int 9007199254740993 = 9007199254740992" by code_simp
  have m: "float_mul 3 9007199254740992 = 27021597764222976" by code_simp
  have a: "float_add 0 27021597764222976 = 27021597764222976" by code_simp
  show "acc_bobot [(''22010'', ''Joko'', ''TI'', ''B'', 9007199254740993)] = 27021597764222976"
    by (simp add: acc_bobot_def b row_sks_def s f m a)
  show "sum_bobot [(''22010'', ''Joko'', ''TI'', ''B'', 9007199254740993)] = 27021597764222979"
    by (simp add: sum_bobot_def b row_sks_def s)
qed

section \<open>Properties of the two endpoints\<close>

text \<open>
  C1 (as amended). When every normalized grade is a key of the weight table and the
  credit hours sum to a positive number, \<^verbatim>\<open>get_ips\<close> returns a result whose total_sks is
  the sum of the credit hours. When moreover the absolute credit hours sum to less than
  \<open>2\<^sup>4\<^sup>3\<close>, the float arithmetic of the accumulation is exact: total_bobot is the exact
  sum of weight times credit hours, a multiple of 1/4 that rounding to two decimals
  leaves unchanged; ips is \<^verbatim>\<open>round(q', 2)\<close> for the binary64 quotient \<open>q'\<close> of that sum by
  the total credit hours, which is the float nearest to a two-decimal number \<open>m/100\<close>
  within 0.005 of the exact quotient; and unless the exact quotient lies midway between
  two two-decimal numbers, ips is the float nearest to the exact quotient rounded to two
  decimals (half-up and half-even agree there).
\<close>

theorem get_ips_weighted_average:
  assumes "list_all valid_row rows" and "0 < sum_sks rows"
  shows "\<exists>r. get_ips nim_q (Inr rows) = Inr r
     \<and> total_sks r = sum_sks rows
     \<and> (sum_abs_sks rows < 2 ^ 43 \<longrightarrow>
          total_bobot r = sum_bobot rows
          \<and> decimal2_half_even (sum_bobot rows) = sum_bobot rows
          \<and> ips r = round2 (to_binary64 (weighted_average rows))
          \<and> (\<exists>m. ips r = to_binary64 (of_int m / 100)
                \<and> \<bar>of_int m / 100 - weighted_average rows\<bar> \<le> 1 / 200)
          \<and> (\<not> is_tie2 (weighted_average rows) \<longrightarrow>
                ips r = to_binary64 (decimal2_half_even (weighted_average rows))
                \<and> decimal2_half_up (weighted_average rows)
                    = decimal2_half_even (weighted_average rows)))"
proof -
  have ne: "rows \<noteq> []" using assms(2) by (auto simp add: sum_sks_def)
  define r where "r = \<lparr>nim = fst (hd rows), nama = fst (snd (hd rows)),
      jurusan = fst (snd (snd (hd rows))), total_sks = sum_sks rows,
      total_bobot = round2 (acc_bobot rows),
      ips = round2 (to_binary64 (acc_bobot rows / float_of_int (sum_sks rows))),
      detail_perhitungan = map detail_of rows\<rparr>"
  have res: "get_ips nim_q (Inr rows) = Inr r"
    using assms(2) by (simp add: get_ips_valid [OF ne assms(1)] r_def)
  have ts: "total_sks r = sum_sks rows" by (simp add: r_def)
  have ex: "total_bobot r = sum_bobot rows
          \<and> decimal2_half_even (sum_bobot rows) = sum_bobot rows
          \<and> ips r = round2 (to_binary64 (weighted_average rows))
          \<and> (\<exists>m. ips r = to_binary64 (of_int m / 100)
                \<and> \<bar>of_int m / 100 - weighted_average rows\<bar> \<le> 1 / 200)
          \<and> (\<not> is_tie2 (weighted_average rows) \<longrightarrow>
                ips r = to_binary64 (decimal2_half_even (weighted_average rows))
                \<and> decimal2_half_up (weighted_average rows)
                    = decimal2_half_even (weighted_average rows))"
    if b: "sum_abs_sks rows < 2 ^ 43"
  proof -
    define q where "q = weighted_average rows"
    define m where "m = round_half_even (to_binary64 q * 100)"
    have a: "acc_bobot rows = sum_bobot rows" "round2 (sum_bobot rows) = sum_bobot rows"
        "decimal2_half_even (sum_bobot rows) = sum_bobot rows"
        "float_of_int (sum_sks rows) = of_int (sum_sks rows)"
      and near: "\<bar>of_int m / 100 - q\<bar> \<le> 1 / 200"
      using average_exact [OF assms b] by (simp_all add: m_def q_def)
    have tb: "total_bobot r = sum_bobot rows" by (simp add: r_def a)
    have ir: "ips r = round2 (to_binary64 q)"
      by (simp add: r_def a weighted_average_def q_def)
    have im: "ips r = to_binary64 (of_int m / 100)"
      by (simp add: ir round2_def m_def)
    have nt: "ips r = to_binary64 (decimal2_half_even q) \<and> decimal2_half_up q = decimal2_half_even q"
      if t: "\<not> is_tie2 q"
    proof -
      have "\<bar>(of_int m - q * 100) / 100\<bar> = \<bar>of_int m - q * 100\<bar> / 100" by simp
      moreover have "(of_int m - q * 100) / 100 = of_int m / 100 - q"
        by (simp add: diff_divide_distrib)
      ultimately have "\<bar>of_int m - q * 100\<bar> \<le> 1 / 2" using near by linarith
      moreover have "q * 100 - of_int \<lfloor>q * 100\<rfloor> \<noteq> 1 / 2"
        using t by (simp add: is_tie2_def)
      ultimately have s: "\<bar>of_int m - q * 100\<bar> < 1 / 2" by (rule not_tie_strict)
      have "round_half_even (q * 100) = m" using s by (rule round_half_even_unique)
      moreover have "\<lfloor>q * 100 + 1 / 2\<rfloor> = m" using s by (rule floor_half_unique)
      ultimately show ?thesis
        by (simp add: im decimal2_half_even_def decimal2_half_up_def)
    qed
    show ?thesis
      using tb a(3) ir im near nt unfolding q_def by blast
  qed
  show ?thesis
    using res ts ex by blast
qed


theorem get_ips_weighted_average_witness:
  "\<exists>r. get_ips ''22008''
         (Inr [(''22008'', ''Wati'', ''TI'', ''B'', 2), (''22008'', ''Wati'', ''TI'', ''a-'', 3),
               (''22008'', ''Wati'', ''TI'', ''C+ '', 2)]) = Inr r
     \<and> total_sks r = 7 \<and> total_bobot r = 89 / 4 \<and> ips r = to_binary64 (318 / 100)"
proof -
  have n: "normalize_nilai ''B'' = py_str ''B''" "normalize_nilai ''a-'' = py_str ''A-''"
      "normalize_nilai ''C+ '' = py_str ''C+''"
    by (simp_all add: normalize_eval)
  have v: "list_all valid_row
      [(''22008'', ''Wati'', ''TI'', ''B'', 2), (''22008'', ''Wati'', ''TI'', ''a-'', 3),
       (''22008'', ''Wati'', ''TI'', ''C+ '', 2)]"
    by (simp add: valid_row_def row_nilai_def n bobot_nilai_def py_str_def)
  have s: "sum_sks
      [(''22008'', ''Wati'', ''TI'', ''B'', 2), (''22008'', ''Wati'', ''TI'', ''a-'', 3),
       (''22008'', ''Wati'', ''TI'', ''C+ '', 2)] = 7"
    by (simp add: sum_sks_def row_sks_def)
  have a: "sum_abs_sks
      [(''22008'', ''Wati'', ''TI'', ''B'', 2), (''22008'', ''Wati'', ''TI'', ''a-'', 3),
       (''22008'', ''Wati'', ''TI'', ''C+ '', 2)] = 7"
    by (simp add: sum_abs_sks_def row_sks_def)
  have b: "sum_bobot
      [(''22008'', ''Wati'', ''TI'', ''B'', 2), (''22008'', ''Wati'', ''TI'', ''a-'', 3),
       (''22008'', ''Wati'', ''TI'', ''C+ '', 2)] = 89 / 4"
    by (simp add: sum_bobot_def row_sks_def row_bobot_def row_nilai_def n bobot_nilai_def py_str_def)
  have w: "weighted_average
      [(''22008'', ''Wati'', ''TI'', ''B'', 2), (''22008'', ''Wati'', ''TI'', ''a-'', 3),
       (''22008'', ''Wati'', ''TI'', ''C+ '', 2)] = 89 / 28"
    by (simp add: weighted_average_def s b)
  have t: "\<not> is_tie2 (89 / 28)" by code_simp
  have d: "decimal2_half_even (89 / 28) = 318 / 100" by code_simp
  have p: "0 < sum_sks
      [(''22008'', ''Wati'', ''TI'', ''B'', 2), (''22008'', ''Wati'', ''TI'', ''a-'', 3),
       (''22008'', ''Wati'', ''TI'', ''C+ '', 2)]"
    by (simp add: s)
  show ?thesis
    using get_ips_weighted_average [OF v p, of "''22008''"]
    by (auto simp add: s a b w t d)
qed

text \<open>
  At an exact tie the claim as first stated fails. For the rows (A-, 1), (B, 5), (C, 4)
  the quality points are 26.75 and the exact average is 2.675, which rounds to 2.68 by
  either rule; the binary64 quotient lies just below 2.675, and \<^verbatim>\<open>get_ips\<close> returns
  2.67.
\<close>

theorem get_ips_tie_counterexample:
  "get_ips ''22002''
     (Inr [(''22002'', ''Budi'', ''TI'', ''A-'', 1), (''22002'', ''Budi'', ''TI'', ''B'', 5),
           (''22002'', ''Budi'', ''TI'', ''C'', 4)]) =
   Inr \<lparr>nim = ''22002'', nama = ''Budi'', jurusan = ''TI'',
        total_sks = 10, total_bobot = 107 / 4, ips = to_binary64 (267 / 100),
        detail_perhitungan =
          [\<lparr>nilai = py_str ''A-'', sks = 1, bobot = 15 / 4, bobot_x_sks = 15 / 4\<rparr>,
           \<lparr>nilai = py_str ''B'', sks = 5, bobot = 3, bobot_x_sks = 15\<rparr>,
           \<lparr>nilai = py_str ''C'', sks = 4, bobot = 2, bobot_x_sks = 8\<rparr>]\<rparr>
   \<and> weighted_average
       [(''22002'', ''Budi'', ''TI'', ''A-'', 1), (''22002'', ''Budi'', ''TI'', ''B'', 5),
        (''22002'', ''Budi'', ''TI'', ''C'', 4)] = 2675 / 1000
   \<and> decimal2_half_even (2675 / 1000) = 268 / 100
   \<and> decimal2_half_up (2675 / 1000) = 268 / 100
   \<and> to_binary64 (267 / 100) \<noteq> to_binary64 (268 / 100)
   \<and> to_binary64 (267 / 100) \<noteq> 268 / 100"
proof -
  have n: "normalize_nilai ''A-'' = py_str ''A-''" "normalize_nilai ''B'' = py_str ''B''"
      "normalize_nilai ''C'' = py_str ''C''"
    by (simp_all add: normalize_eval)
  have p: "float_mul (15 / 4) (float_of_int 1) = 15 / 4" "float_mul 3 (float_of_int 5) = 15"
      "float_mul 2 (float_of_int 4) = 8"
    by code_simp+
  have a: "float_add 0 (15 / 4) = 15 / 4" "float_add (15 / 4) 15 = 75 / 4"
      "float_add (75 / 4) 8 = 107 / 4"
    by code_simp+
  have r: "round2 (15 / 4) = 15 / 4" "round2 15 = 15" "round2 8 = 8" "round2 (107 / 4) = 107 / 4"
    by code_simp+
  have q: "float_truediv (107 / 4) (float_of_int 10) = Inr (3011782250804019 / 2 ^ 50)"
    by code_simp
  have i: "round2 (3011782250804019 / 2 ^ 50) = to_binary64 (267 / 100)"
    by code_simp
  have g: "get_ips ''22002''
     (Inr [(''22002'', ''Budi'', ''TI'', ''A-'', 1), (''22002'', ''Budi'', ''TI'', ''B'', 5),
           (''22002'', ''Budi'', ''TI'', ''C'', 4)]) =
   Inr \<lparr>nim = ''22002'', nama = ''Budi'', jurusan = ''TI'',
        total_sks = 10, total_bobot = 107 / 4, ips = to_binary64 (267 / 100),
        detail_perhitungan =
          [\<lparr>nilai = py_str ''A-'', sks = 1, bobot = 15 / 4, bobot_x_sks = 15 / 4\<rparr>,
           \<lparr>nilai = py_str ''B'', sks = 5, bobot = 3, bobot_x_sks = 15\<rparr>,
           \<lparr>nilai = py_str ''C'', sks = 4, bobot = 2, bobot_x_sks = 8\<rparr>]\<rparr>"
    by (simp add: get_ips_def bobot_nilai_def py_str_def n p a r q i del: power_numeral)
  have w: "weighted_average
       [(''22002'', ''Budi'', ''TI'', ''A-'', 1), (''22002'', ''Budi'', ''TI'', ''B'', 5),
        (''22002'', ''Budi'', ''TI'', ''C'', 4)] = 2675 / 1000"
    by (simp add: weighted_average_def sum_bobot_def sum_sks_def row_sks_def row_bobot_def
        row_nilai_def n bobot_nilai_def py_str_def)
  have d: "decimal2_half_even (2675 / 1000) = 268 / 100" "decimal2_half_up (2675 / 1000) = 268 / 100"
    by code_simp+
  have e: "to_binary64 (267 / 100) \<noteq> to_binary64 (268 / 100)" "to_binary64 (267 / 100) \<noteq> 268 / 100"
    by code_simp+
  show ?thesis
    using g w d e by (simp only: simp_thms)
qed



text \<open>
  C3. When the join query returns no row for the student identifier, \<^verbatim>\<open>get_ips\<close> fails
  with the "not found" exception, whose status is 404 and whose message names the
  identifier; no result is returned.
\<close>

theorem get_ips_not_found:
  "get_ips nim_q (Inr []) = Inl (HTTPException 404 (not_found_detail nim_q))
   \<and> status_code (HTTPException 404 (not_found_detail nim_q)) = 404
   \<and> not_found_detail ''22009'' = py_str ''Data KRS untuk NIM 22009 tidak ditemukan''"
  by (simp add: get_ips_def not_found_detail_def)

text \<open>
  C4. When the rows are not empty, every grade is valid and the credit hours sum to zero,
  \<^verbatim>\<open>get_ips\<close> fails with the "total SKS = 0" exception of status 400. The division is
  never run with a zero divisor: whatever the rows, the outcome is not the 500 that a
  \<^verbatim>\<open>ZeroDivisionError\<close> would be turned into. The single row (grade C, 0 credit hours)
  gives the 400.
\<close>

theorem get_ips_zero_sks:
  "(rows \<noteq> [] \<and> list_all valid_row rows \<and> sum_sks rows = 0 \<longrightarrow>
      get_ips nim_q (Inr rows) = Inl (HTTPException 400 zero_sks_detail))
   \<and> get_ips nim_q (Inr rows) \<noteq> Inl (HTTPException 500 (str_of_exception ZeroDivisionError))
   \<and> get_ips ''22003'' (Inr [(''22003'', nama_mhs, jurusan_mhs, ''C'', 0)]) =
       Inl (HTTPException 400 (py_str ''Total SKS = 0, IPS tidak bisa dihitung''))"
proof -
  have n: "normalize_nilai ''C'' = py_str ''C''" by (simp_all add: normalize_eval)
  have v: "list_all valid_row [(''22003'', nama_mhs, jurusan_mhs, ''C'', 0)]"
    by (simp add: valid_row_def row_nilai_def n bobot_nilai_def py_str_def)
  have s: "sum_sks [(''22003'', nama_mhs, jurusan_mhs, ''C'', 0)] = 0"
    by (simp add: sum_sks_def row_sks_def)
  have "get_ips ''22003'' (Inr [(''22003'', nama_mhs, jurusan_mhs, ''C'', 0)]) =
       Inl (HTTPException 400 zero_sks_detail)"
    using get_ips_valid [OF _ v, of "''22003''"] s by simp
  then show ?thesis
    using get_ips_not_zero_division [of nim_q rows]
    by (auto simp add: get_ips_valid zero_sks_detail_def)
qed

theorem get_ips_zero_sks_witness:
  "get_ips ''22006'' (Inr [(''22006'', ''Rudi'', ''TI'', ''A'', 3), (''22006'', ''Rudi'', ''TI'', ''B'', - 3)])
     = Inl (HTTPException 400 zero_sks_detail)"
proof -
  have n: "normalize_nilai ''A'' = py_str ''A''" "normalize_nilai ''B'' = py_str ''B''" by (simp_all add: normalize_eval)
  have v: "list_all valid_row [(''22006'', ''Rudi'', ''TI'', ''A'', 3), (''22006'', ''Rudi'', ''TI'', ''B'', - 3)]"
    by (simp add: valid_row_def row_nilai_def n bobot_nilai_def py_str_def)
  have s: "sum_sks [(''22006'', ''Rudi'', ''TI'', ''A'', 3), (''22006'', ''Rudi'', ''TI'', ''B'', - 3)] = 0"
    by (simp add: sum_sks_def row_sks_def)
  show ?thesis
    using get_ips_zero_sks [of "[(''22006'', ''Rudi'', ''TI'', ''A'', 3), (''22006'', ''Rudi'', ''TI'', ''B'', - 3)]" "''22006''"]
      v s by simp
qed

text \<open>
  C5. The lookup of a grade token does not depend on leading or trailing whitespace nor
  on letter case. A stored token that is the trimmed, upper-case form of a raw token
  normalizes to the same token and so has the same weight; two tokens whose characters
  have the same upper case one by one normalize to the same token; a token padded with
  whitespace normalizes as the token itself; and rows whose stored tokens are the
  normalized forms of the tokens of other rows give the same outcome of \<^verbatim>\<open>get_ips\<close>.
  The tokens \<^verbatim>\<open>" b+ "\<close> and \<^verbatim>\<open>"B+"\<close> both have weight 3.5, and so has \<^verbatim>\<open>"b+"\<close> followed by
  a no-break space.
\<close>

theorem normalize_invariance:
  "(py_str t' = normalize_nilai t \<longrightarrow>
      normalize_nilai t' = normalize_nilai t
      \<and> map_of bobot_nilai (normalize_nilai t') = map_of bobot_nilai (normalize_nilai t))
   \<and> (list_all2 (\<lambda>c d. upper_full c = upper_full d) t u \<longrightarrow>
        normalize_nilai t = normalize_nilai u)
   \<and> (list_all isspace w1 \<and> list_all isspace w2 \<longrightarrow>
        normalize_nilai (w1 @ t @ w2) = normalize_nilai t
        \<and> map_of bobot_nilai (normalize_nilai (w1 @ t @ w2)) = map_of bobot_nilai (normalize_nilai t))
   \<and> (list_all2 normalized_form rows rows' \<longrightarrow>
        get_ips nim_q (Inr rows') = get_ips nim_q (Inr rows))
   \<and> normalize_nilai '' b+ '' = py_str ''B+''
   \<and> map_of bobot_nilai (normalize_nilai '' b+ '') = Some (7 / 2)
   \<and> map_of bobot_nilai (normalize_nilai ''B+'') = Some (7 / 2)
   \<and> map_of bobot_nilai (normalize_nilai [CHR ''b'', CHR ''+'', CHR 0xA0]) = Some (7 / 2)"
proof -
  have n: "normalize_nilai '' b+ '' = py_str ''B+''" "normalize_nilai ''B+'' = py_str ''B+''"
      "normalize_nilai [CHR ''b'', CHR ''+'', CHR 0xA0] = py_str ''B+''"
    by (simp_all add: normalize_eval)
  have m: "map_of bobot_nilai (py_str ''B+'') = Some (7 / 2)"
    by (simp add: bobot_nilai_def py_str_def)
  show ?thesis
    using normalize_nilai_fixed [of t' t] normalize_nilai_same_upper [of t u]
      normalize_nilai_pad [of w1 w2 t] get_ips_normalized_form [of rows rows' nim_q]
    by (simp add: n m)
qed

theorem normalize_invariance_witness:
  "normalize_nilai ''B+'' = normalize_nilai '' b+ ''
   \<and> normalize_nilai '' b+ '' = normalize_nilai '' B+ ''
   \<and> normalize_nilai ([CHR 0x85] @ '' b+ '' @ [CHR 0x09, CHR 0xA0]) = normalize_nilai '' b+ ''
   \<and> get_ips ''22002'' (Inr [(''22002'', ''Budi'', ''TI'', ''B+'', 4)])
       = get_ips ''22002'' (Inr [(''22002'', ''Budi'', ''TI'', '' b+ '', 4)])"
proof -
  have a: "py_str ''B+'' = normalize_nilai '' b+ ''"
    by (simp add: normalize_eval)
  have b: "list_all2 (\<lambda>c d. upper_full c = upper_full d) '' b+ '' '' B+ ''"
    by (simp add: upper_full_def upper_code_def)
  have c: "list_all isspace [CHR 0x85]" "list_all isspace [CHR 0x09, CHR 0xA0]"
    by (simp_all add: isspace_def space_code_def)
  have d: "list_all2 normalized_form [(''22002'', ''Budi'', ''TI'', '' b+ '', 4)]
      [(''22002'', ''Budi'', ''TI'', ''B+'', 4)]"
    using a by (simp add: normalized_form_def)
  show ?thesis
    using normalize_invariance [where t = "'' b+ ''" and t' = "''B+''" and u = "'' B+ ''"
        and ?w1.0 = "[CHR 0x85]" and ?w2.0 = "[CHR 0x09, CHR 0xA0]"
        and rows = "[(''22002'', ''Budi'', ''TI'', '' b+ '', 4)]"
        and rows' = "[(''22002'', ''Budi'', ''TI'', ''B+'', 4)]" and nim_q = "''22002''"]
      a b c d
    by simp
qed

text \<open>
  C6. For the two enrollment rows (grade A, 3 credit hours) and (grade B+, 4 credit hours)
  \<^verbatim>\<open>get_ips\<close> returns total_sks 7, total_bobot 26.0 and ips 3.71, the float written
  \<^verbatim>\<open>3.71\<close> being the binary64 number nearest to 371/100.
\<close>

theorem get_ips_scenario_22002:
  "get_ips ''22002''
     (Inr [(''22002'', nama_mhs, jurusan_mhs, ''A'', 3), (''22002'', nama_mhs, jurusan_mhs, ''B+'', 4)]) =
   Inr \<lparr>nim = ''22002'', nama = nama_mhs, jurusan = jurusan_mhs,
        total_sks = 7, total_bobot = 26, ips = to_binary64 (371 / 100),
        detail_perhitungan =
          [\<lparr>nilai = py_str ''A'', sks = 3, bobot = 4, bobot_x_sks = 12\<rparr>,
           \<lparr>nilai = py_str ''B+'', sks = 4, bobot = 7 / 2, bobot_x_sks = 14\<rparr>]\<rparr>
   \<and> to_binary64 (371 / 100) = 4177088654386135 / 2 ^ 50"
proof -
  have n: "normalize_nilai ''A'' = py_str ''A''" "normalize_nilai ''B+'' = py_str ''B+''"
    by (simp_all add: normalize_eval)
  have p: "float_mul 4 (float_of_int 3) = 12" "float_mul (7 / 2) (float_of_int 4) = 14"
    by code_simp+
  have a: "float_add 0 12 = 12" "float_add 12 14 = 26"
    by code_simp+
  have r: "round2 12 = 12" "round2 14 = 14" "round2 26 = 26"
    by code_simp+
  have q: "float_truediv 26 (float_of_int 7) = Inr (4181913939701175 / 2 ^ 50)"
    by code_simp
  have i: "round2 (4181913939701175 / 2 ^ 50) = to_binary64 (371 / 100)"
    by code_simp
  have l: "to_binary64 (371 / 100) = 4177088654386135 / 2 ^ 50"
    by code_simp
  have "get_ips ''22002''
     (Inr [(''22002'', nama_mhs, jurusan_mhs, ''A'', 3), (''22002'', nama_mhs, jurusan_mhs, ''B+'', 4)]) =
   Inr \<lparr>nim = ''22002'', nama = nama_mhs, jurusan = jurusan_mhs,
        total_sks = 7, total_bobot = 26, ips = to_binary64 (371 / 100),
        detail_perhitungan =
          [\<lparr>nilai = py_str ''A'', sks = 3, bobot = 4, bobot_x_sks = 12\<rparr>,
           \<lparr>nilai = py_str ''B+'', sks = 4, bobot = 7 / 2, bobot_x_sks = 14\<rparr>]\<rparr>"
    by (simp add: get_ips_def bobot_nilai_def py_str_def n p a r q i del: power_numeral)
  then show ?thesis using l by simp
qed

text \<open>
  C7. Rounding to two decimals is applied to the returned quantities only: the total of
  quality points is the rounded value of the running total, the average is the rounded
  quotient of the running total (not of its rounded value) by the total of credit hours,
  and the running total itself is a sum of unrounded products. Each detail record holds
  the normalized grade, the credit hours, the weight of the grade and the rounded
  product.
\<close>

theorem get_ips_rounding:
  assumes "get_ips nim_q (Inr rows) = Inr r"
  shows "total_sks r = sum_list (map row_sks rows)
     \<and> total_bobot r = round2 (acc_bobot rows)
     \<and> ips r = round2 (to_binary64 (acc_bobot rows / float_of_int (total_sks r)))
     \<and> acc_bobot rows =
         foldl (\<lambda>acc row. float_add acc (float_mul (row_bobot row) (float_of_int (row_sks row))))
           0 rows
     \<and> detail_perhitungan r =
         map (\<lambda>row. \<lparr>nilai = normalize_nilai (row_nilai row), sks = row_sks row,
                     bobot = row_bobot row,
                     bobot_x_sks = round2 (float_mul (row_bobot row) (float_of_int (row_sks row)))\<rparr>)
           rows"
proof -
  have v: "rows \<noteq> []" "list_all valid_row rows"
    using get_ips_Inr_valid [OF assms] by simp_all
  have "detail_of = (\<lambda>row. \<lparr>nilai = normalize_nilai (row_nilai row), sks = row_sks row,
                     bobot = row_bobot row,
                     bobot_x_sks = round2 (float_mul (row_bobot row) (float_of_int (row_sks row)))\<rparr>)"
    by (rule ext) (simp add: detail_of_def)
  then show ?thesis
    using assms by (auto simp add: get_ips_valid [OF v] acc_bobot_def sum_sks_def split: if_splits)
qed

theorem get_ips_rounding_witness:
  "\<exists>r. get_ips ''22002'' (Inr [(''22002'', ''Budi'', ''TI'', ''A-'', 1), (''22002'', ''Budi'', ''TI'', ''B'', 3)]) = Inr r
     \<and> total_sks r = 4 \<and> total_bobot r = 51 / 4 \<and> ips r = to_binary64 (319 / 100)
     \<and> detail_perhitungan r =
         [\<lparr>nilai = py_str ''A-'', sks = 1, bobot = 15 / 4, bobot_x_sks = 15 / 4\<rparr>,
          \<lparr>nilai = py_str ''B'', sks = 3, bobot = 3, bobot_x_sks = 9\<rparr>]"
proof -
  let ?rows = "[(''22002'', ''Budi'', ''TI'', ''A-'', 1), (''22002'', ''Budi'', ''TI'', ''B'', 3)] :: krs_row list"
  have n: "normalize_nilai ''A-'' = py_str ''A-''" "normalize_nilai ''B'' = py_str ''B''" by (simp_all add: normalize_eval)
  have v: "list_all valid_row ?rows"
    by (simp add: valid_row_def row_nilai_def n bobot_nilai_def py_str_def)
  have s: "sum_sks ?rows = 4" by (simp add: sum_sks_def row_sks_def)
  obtain r where r: "get_ips ''22002'' (Inr ?rows) = Inr r"
    using get_ips_valid [OF _ v, of "''22002''"] s by simp
  have b: "row_bobot (''22002'', ''Budi'', ''TI'', ''A-'', 1) = 15 / 4"
      "row_bobot (''22002'', ''Budi'', ''TI'', ''B'', 3) = 3"
    by (simp_all add: row_bobot_def row_nilai_def n bobot_nilai_def py_str_def)
  have p: "float_mul (15 / 4) (float_of_int 1) = 15 / 4" "float_mul 3 (float_of_int 3) = 9"
    by code_simp+
  have a: "float_add 0 (15 / 4) = 15 / 4" "float_add (15 / 4) 9 = 51 / 4"
    by code_simp+
  have rr: "round2 (15 / 4) = 15 / 4" "round2 9 = 9" "round2 (51 / 4) = 51 / 4"
    by code_simp+
  have f4: "float_of_int 4 = 4"
    by code_simp
  have q: "round2 (to_binary64 (51 / 16)) = to_binary64 (319 / 100)"
    by code_simp
  have acc: "acc_bobot ?rows = 51 / 4"
    by (simp add: acc_bobot_def b row_sks_def p a)
  show ?thesis
    using get_ips_rounding [OF r] r
    by (simp add: acc b row_sks_def row_nilai_def n p rr f4 q)
qed

text \<open>
  C8. \<^verbatim>\<open>get_mahasiswas\<close> returns one dictionary per stored student row, in the order of
  the rows and with none left out; the dictionary of a row has the keys nim, nama,
  jurusan and angkatan, bound to the four column values as they are.
\<close>

theorem get_mahasiswas_all:
  "\<exists>out. get_mahasiswas (Inr rows) = Inr out \<and> length out = length rows
     \<and> (\<forall>i<length rows. out ! i =
          (case rows ! i of (r0, r1, r2, r3) \<Rightarrow>
             [(''nim'', JStr r0), (''nama'', JStr r1), (''jurusan'', JStr r2),
              (''angkatan'', JInt r3)]))"
  by (simp add: get_mahasiswas_def mahasiswa_dict_def)

theorem get_mahasiswas_all_witness:
  "get_mahasiswas (Inr [(''22001'', ''Ani'', ''TI'', 2022), (''22002'', ''Budi'', ''SI'', 2021)]) =
     Inr [[(''nim'', JStr ''22001''), (''nama'', JStr ''Ani''), (''jurusan'', JStr ''TI''),
           (''angkatan'', JInt 2022)],
          [(''nim'', JStr ''22002''), (''nama'', JStr ''Budi''), (''jurusan'', JStr ''SI''),
           (''angkatan'', JInt 2021)]]"
proof -
  obtain out where o: "get_mahasiswas (Inr [(''22001'', ''Ani'', ''TI'', 2022), (''22002'', ''Budi'', ''SI'', 2021)]) = Inr out"
    and l: "length out = 2"
    and n: "\<forall>i<2. out ! i =
          (case [(''22001'', ''Ani'', ''TI'', 2022), (''22002'', ''Budi'', ''SI'', 2021)] ! i of (r0, r1, r2, r3) \<Rightarrow>
             [(''nim'', JStr r0), (''nama'', JStr r1), (''jurusan'', JStr r2),
              (''angkatan'', JInt r3)])"
    using get_mahasiswas_all [of "[(''22001'', ''Ani'', ''TI'', 2022), (''22002'', ''Budi'', ''SI'', 2021)]"]
    by auto
  have "out ! 0 = [(''nim'', JStr ''22001''), (''nama'', JStr ''Ani''), (''jurusan'', JStr ''TI''),
           (''angkatan'', JInt 2022)]"
    using n by simp
  moreover have "out ! 1 = [(''nim'', JStr ''22002''), (''nama'', JStr ''Budi''), (''jurusan'', JStr ''SI''),
           (''angkatan'', JInt 2021)]"
    using n by simp
  moreover have "out = [out ! 0, out ! 1]"
    using l by (cases out; cases "tl out") auto
  ultimately show ?thesis using o by simp
qed

text \<open>
  C9. For rows that are not empty and whose grades are all valid, the "total SKS = 0"
  exception is raised exactly when the credit hours sum to zero. Quality points of zero
  are no error: when every row has grade E and positive credit hours, the result is
  returned, with ips 0.0.
\<close>

theorem zero_sks_iff:
  assumes "rows \<noteq> []" and "list_all valid_row rows"
  shows "(get_ips nim_q (Inr rows) = Inl (HTTPException 400 zero_sks_detail)) = (sum_sks rows = 0)
     \<and> (list_all (\<lambda>row. normalize_nilai (row_nilai row) = py_str ''E'' \<and> 0 < row_sks row) rows \<longrightarrow>
          (\<exists>r. get_ips nim_q (Inr rows) = Inr r \<and> total_sks r = sum_sks rows
             \<and> total_bobot r = 0 \<and> ips r = 0))"
proof -
  have iff: "(get_ips nim_q (Inr rows) = Inl (HTTPException 400 zero_sks_detail)) = (sum_sks rows = 0)"
    by (simp add: get_ips_valid [OF assms])
  have "\<exists>r. get_ips nim_q (Inr rows) = Inr r \<and> total_sks r = sum_sks rows
             \<and> total_bobot r = 0 \<and> ips r = 0"
    if e: "list_all (\<lambda>row. normalize_nilai (row_nilai row) = py_str ''E'' \<and> 0 < row_sks row) rows"
  proof -
    have b: "list_all (\<lambda>row. row_bobot row = 0) rows"
      using e by (simp add: list_all_iff row_bobot_def bobot_nilai_def py_str_def)
    have p: "list_all (\<lambda>row. 0 < row_sks row) rows"
      using e by (simp add: list_all_iff)
    have "0 < sum_sks rows" using assms(1) p by (rule sum_sks_pos)
    moreover have "acc_bobot rows = 0"
      using acc_bobot_all_E [OF b] by (simp add: acc_bobot_def)
    ultimately show ?thesis
      by (simp add: get_ips_valid [OF assms] round2_0 to_binary64_0)
  qed
  then show ?thesis using iff by blast
qed

theorem zero_sks_iff_witness:
  "\<exists>r. get_ips ''22007'' (Inr [(''22007'', ''Tono'', ''SI'', ''E'', 3), (''22007'', ''Tono'', ''SI'', '' e'', 2)]) = Inr r
     \<and> total_sks r = 5 \<and> total_bobot r = 0 \<and> ips r = 0"
proof -
  let ?rows = "[(''22007'', ''Tono'', ''SI'', ''E'', 3), (''22007'', ''Tono'', ''SI'', '' e'', 2)] :: krs_row list"
  have n: "normalize_nilai ''E'' = py_str ''E''" "normalize_nilai '' e'' = py_str ''E''" by (simp_all add: normalize_eval)
  have v: "list_all valid_row ?rows"
    by (simp add: valid_row_def row_nilai_def n bobot_nilai_def py_str_def)
  have e: "list_all (\<lambda>row. normalize_nilai (row_nilai row) = py_str ''E'' \<and> 0 < row_sks row) ?rows"
    by (simp add: row_nilai_def row_sks_def n)
  have s: "sum_sks ?rows = 5"
    by (simp add: sum_sks_def row_sks_def)
  show ?thesis
    using zero_sks_iff [OF _ v, of "''22007''"] e s by simp
qed

text \<open>
  C10. The token named in the "invalid grade" message is the stored token of the first
  invalid row with its leading and trailing whitespace removed and every character
  replaced by its upper case (the letters \<^verbatim>\<open>a\<close> to \<^verbatim>\<open>z\<close> by \<^verbatim>\<open>A\<close> to \<^verbatim>\<open>Z\<close>), not the token
  as stored: when the two differ, the message is not the one that the stored token would
  give. The token \<^verbatim>\<open>" f "\<close> is reported as \<^verbatim>\<open>'F'\<close>.
\<close>

theorem invalid_grade_names_normalized:
  assumes "List.find (\<lambda>row. \<not> valid_row row) rows = Some bad"
  shows "\<exists>e w1 core w2. get_ips nim_q (Inr rows) = Inl e
     \<and> row_nilai bad = w1 @ core @ w2 \<and> list_all isspace w1 \<and> list_all isspace w2
     \<and> (core = [] \<or> (\<not> isspace (hd core) \<and> \<not> isspace (last core)))
     \<and> core = str_strip (row_nilai bad)
     \<and> detail e =
         py_str ''Nilai '' @ [39] @ concat (map upper_full core) @ [39]
           @ py_str '' tidak dikenali. Harus salah satu: ''
           @ repr_list
               (map py_str [''A'', ''A-'', ''B+'', ''B'', ''B-'', ''C+'', ''C'', ''D'', ''E''])
     \<and> (\<forall>c. 97 \<le> (of_char c :: nat) \<and> (of_char c :: nat) \<le> 122 \<longrightarrow>
            upper_full c = [of_char c - 32])
     \<and> (concat (map upper_full core) \<noteq> py_str (row_nilai bad) \<longrightarrow>
            detail e \<noteq> invalid_grade_detail (py_str (row_nilai bad)))"
proof -
  define core where "core = str_strip (row_nilai bad)"
  define e where
    "e = HTTPException 400 (invalid_grade_detail (normalize_nilai (row_nilai bad)))"
  have res: "get_ips nim_q (Inr rows) = Inl e"
    unfolding e_def by (rule get_ips_find_invalid [OF assms])
  obtain w1 w2 where d: "row_nilai bad = w1 @ core @ w2" "list_all isspace w1"
      "list_all isspace w2"
    unfolding core_def using str_strip_decomp by blast
  have ends: "core = [] \<or> (\<not> isspace (hd core) \<and> \<not> isspace (last core))"
    unfolding core_def by (rule str_strip_ends)
  have nm: "normalize_nilai (row_nilai bad) = concat (map upper_full core)"
    by (simp add: normalize_nilai_def str_upper_def core_def)
  have det: "detail e =
         py_str ''Nilai '' @ [39] @ concat (map upper_full core) @ [39]
           @ py_str '' tidak dikenali. Harus salah satu: ''
           @ repr_list
               (map py_str [''A'', ''A-'', ''B+'', ''B'', ''B-'', ''C+'', ''C'', ''D'', ''E''])"
    by (simp add: e_def nm invalid_grade_detail_keys repr_str_def)
  have up: "\<forall>c. 97 \<le> (of_char c :: nat) \<and> (of_char c :: nat) \<le> 122 \<longrightarrow>
            upper_full c = [of_char c - 32]"
    using upper_full_ascii by blast
  have ne: "detail e \<noteq> invalid_grade_detail (py_str (row_nilai bad))"
    if "concat (map upper_full core) \<noteq> py_str (row_nilai bad)"
    using that invalid_grade_detail_inj [of "concat (map upper_full core)" "py_str (row_nilai bad)"]
    by (auto simp add: e_def nm)
  have c: "core = str_strip (row_nilai bad)" by (simp add: core_def)
  show ?thesis
    using res d ends c det up ne by blast
qed

theorem invalid_grade_names_normalized_witness:
  "(\<exists>e. get_ips ''22005'' (Inr [(''22005'', ''Dewi'', ''TI'', '' f '', 3)]) = Inl e
      \<and> detail e =
          py_str ''Nilai '' @ [39] @ py_str ''F'' @ [39]
            @ py_str '' tidak dikenali. Harus salah satu: ''
            @ repr_list
                (map py_str [''A'', ''A-'', ''B+'', ''B'', ''B-'', ''C+'', ''C'', ''D'', ''E''])
      \<and> detail e \<noteq> invalid_grade_detail (py_str '' f ''))
   \<and> (\<exists>e. get_ips ''22005''
          (Inr [(''22005'', ''Dewi'', ''TI'', ''A'', 2),
                (''22005'', ''Dewi'', ''TI'', [CHR 0x09, CHR ''x'', CHR ''-'', CHR 0xE9, CHR 0xA0], 3)])
          = Inl e
      \<and> detail e =
          py_str ''Nilai '' @ [39] @ [88, 45, 201] @ [39]
            @ py_str '' tidak dikenali. Harus salah satu: ''
            @ repr_list
                (map py_str [''A'', ''A-'', ''B+'', ''B'', ''B-'', ''C+'', ''C'', ''D'', ''E'']))"
proof -
  have n: "normalize_nilai '' f '' = py_str ''F''" "normalize_nilai ''A'' = py_str ''A''"
      "normalize_nilai [CHR 0x09, CHR ''x'', CHR ''-'', CHR 0xE9, CHR 0xA0] = [88, 45, 201]"
    by (simp_all add: normalize_eval)
  have s: "str_strip '' f '' = ''f''"
      "str_strip [CHR 0x09, CHR ''x'', CHR ''-'', CHR 0xE9, CHR 0xA0] = [CHR ''x'', CHR ''-'', CHR 0xE9]"
    by (simp_all add: str_strip_def isspace_def space_code_def)
  have u: "upper_full CHR ''f'' = py_str ''F''" "upper_full CHR ''x'' = [88]"
      "upper_full CHR ''-'' = [45]" "upper_full (CHR 0xE9) = [201]"
    by (simp_all add: upper_full_def upper_code_def py_str_def)
  have f1: "List.find (\<lambda>row. \<not> valid_row row) [(''22005'', ''Dewi'', ''TI'', '' f '', 3)]
      = Some (''22005'', ''Dewi'', ''TI'', '' f '', 3)"
    by (simp add: valid_row_def row_nilai_def n bobot_nilai_def py_str_def)
  have f2: "List.find (\<lambda>row. \<not> valid_row row)
      [(''22005'', ''Dewi'', ''TI'', ''A'', 2),
       (''22005'', ''Dewi'', ''TI'', [CHR 0x09, CHR ''x'', CHR ''-'', CHR 0xE9, CHR 0xA0], 3)]
      = Some (''22005'', ''Dewi'', ''TI'', [CHR 0x09, CHR ''x'', CHR ''-'', CHR 0xE9, CHR 0xA0], 3)"
    by (simp add: valid_row_def row_nilai_def n bobot_nilai_def py_str_def)
  have d: "py_str ''F'' \<noteq> py_str '' f ''" by (simp add: py_str_def)
  obtain e1 core1 where e1: "get_ips ''22005'' (Inr [(''22005'', ''Dewi'', ''TI'', '' f '', 3)]) = Inl e1"
    and c1: "core1 = str_strip (row_nilai (''22005'', ''Dewi'', ''TI'', '' f '', 3))"
    and t1: "detail e1 =
         py_str ''Nilai '' @ [39] @ concat (map upper_full core1) @ [39]
           @ py_str '' tidak dikenali. Harus salah satu: ''
           @ repr_list
               (map py_str [''A'', ''A-'', ''B+'', ''B'', ''B-'', ''C+'', ''C'', ''D'', ''E''])"
    and n1: "concat (map upper_full core1)
          \<noteq> py_str (row_nilai (''22005'', ''Dewi'', ''TI'', '' f '', 3)) \<longrightarrow>
        detail e1 \<noteq> invalid_grade_detail (py_str (row_nilai (''22005'', ''Dewi'', ''TI'', '' f '', 3)))"
    using invalid_grade_names_normalized [OF f1, of "''22005''"] by blast
  have k1: "core1 = ''f''" using c1 by (simp add: row_nilai_def s)
  have a: "detail e1 =
          py_str ''Nilai '' @ [39] @ py_str ''F'' @ [39]
            @ py_str '' tidak dikenali. Harus salah satu: ''
            @ repr_list
                (map py_str [''A'', ''A-'', ''B+'', ''B'', ''B-'', ''C+'', ''C'', ''D'', ''E''])
      \<and> detail e1 \<noteq> invalid_grade_detail (py_str '' f '')"
    using t1 n1 d by (simp add: k1 u row_nilai_def)
  obtain e2 core2 where e2: "get_ips ''22005''
          (Inr [(''22005'', ''Dewi'', ''TI'', ''A'', 2),
                (''22005'', ''Dewi'', ''TI'', [CHR 0x09, CHR ''x'', CHR ''-'', CHR 0xE9, CHR 0xA0], 3)])
          = Inl e2"
    and c2: "core2 = str_strip (row_nilai
        (''22005'', ''Dewi'', ''TI'', [CHR 0x09, CHR ''x'', CHR ''-'', CHR 0xE9, CHR 0xA0], 3))"
    and t2: "detail e2 =
         py_str ''Nilai '' @ [39] @ concat (map upper_full core2) @ [39]
           @ py_str '' tidak dikenali. Harus salah satu: ''
           @ repr_list
               (map py_str [''A'', ''A-'', ''B+'', ''B'', ''B-'', ''C+'', ''C'', ''D'', ''E''])"
    using invalid_grade_names_normalized [OF f2, of "''22005''"] by blast
  have k2: "core2 = [CHR ''x'', CHR ''-'', CHR 0xE9]" using c2 by (simp add: row_nilai_def s)
  have b: "detail e2 =
          py_str ''Nilai '' @ [39] @ [88, 45, 201] @ [39]
            @ py_str '' tidak dikenali. Harus salah satu: ''
            @ repr_list
                (map py_str [''A'', ''A-'', ''B+'', ''B'', ''B-'', ''C+'', ''C'', ''D'', ''E''])"
    using t2 by (simp add: k2 u)
  show ?thesis using e1 a e2 b by blast
qed

end
